theory Spec2Isabelle
  imports Complex_Main "HOL-Library.Sublist" "HOL-Library.Char_ord" "HOL-Library.List_Lexorder"
begin

section \<open>Data model (src/types/index.ts)\<close>

datatype labelType =
  looking_center | looking_down | looking_up | looking_left | looking_right
  | no_face | with_cellphone

datatype capturePhase = PhaseA | PhaseB

datatype cameraFacing = FacingUser | FacingEnvironment

record captureMetadata =
  label :: labelType
  phase :: capturePhase
  seq :: nat
  timestamp_iso :: string
  ua :: string
  session_id :: string
  camera_facing :: cameraFacing
  device_platform :: string

text \<open>
  The string union \<^verbatim>\<open>'pending' | 'uploading' | 'success' | 'error'\<close> of
  \<^verbatim>\<open>CaptureItem.status\<close>. The specification calls \<^verbatim>\<open>uploading\<close>
  ``in flight'' and \<^verbatim>\<open>error\<close> ``failed''.
\<close>

datatype uploadStatus = Pending | Uploading | Success | Error

text \<open>
  \<^verbatim>\<open>CaptureItem\<close>. The field \<^verbatim>\<open>id\<close> is called \<open>item_id\<close> here, because
  \<open>id\<close> is the identity function of HOL. The two optional fields are options.
\<close>

record captureItem =
  item_id :: string
  imageBase64 :: string
  metadata :: captureMetadata
  filename :: string
  status :: uploadStatus
  retryCount :: nat
  errorMessage :: "string option"
  driveFileId :: "string option"

section \<open>JavaScript numbers\<close>

text \<open>
  A number of JavaScript is an IEEE 754 double: zero, or a real \<open>m * 2 ^ k\<close> with an integer
  \<open>m\<close> of 53 bits, \<open>2 ^ 52 \<le> \<bar>m\<bar> < 2 ^ 53\<close>. An arithmetic operation returns the exact
  result rounded to the nearest double, and to the one with the even \<open>m\<close> when two are equally
  near. \<open>roundEven\<close> rounds a real to an integer in this way, \<open>binade x\<close> is the exponent \<open>e\<close>
  with \<open>2 ^ e \<le> \<bar>x\<bar> < 2 ^ (e + 1)\<close>, and \<open>fl x\<close> is the double nearest to \<open>x\<close>. The exponent
  of a double has a range, which is not modelled. The numbers of the hook stay inside it,
  but for the two products under \<^verbatim>\<open>Math.min\<close>: such a product is \<^verbatim>\<open>Infinity\<close> when it leaves
  the range, and \<^verbatim>\<open>Math.min\<close> then returns its other argument, as \<open>min\<close> does here.
\<close>

definition roundEven :: "real \<Rightarrow> int" where
  "roundEven y =
     (let f = \<lfloor>y\<rfloor>; r = y - of_int f
      in if r < 1/2 then f else if 1/2 < r then f + 1 else if even f then f else f + 1)"

definition binade :: "real \<Rightarrow> int" where
  "binade x = \<lfloor>log 2 \<bar>x\<bar>\<rfloor>"

definition fl :: "real \<Rightarrow> real" where
  "fl x = (if x = 0 then 0
           else of_int (roundEven (x / 2 powi (binade x - 52))) * 2 powi (binade x - 52))"

section \<open>Helpers (the module of getBackoffDelay)\<close>

text \<open>
  \<^verbatim>\<open>getBackoffDelay(attempt, baseDelay = 1000, maxDelay = 30000)\<close>. The value of
  \<^verbatim>\<open>Math.random()\<close> is the last argument \<open>rnd\<close>, a number in \<open>[0, 1)\<close>. Every operation
  rounds its result; \<^verbatim>\<open>Math.pow(2, attempt)\<close> is a power of two, which is exact, and the
  literal \<^verbatim>\<open>0.1\<close> is the double nearest to a tenth. The two defaults are written out at
  the call.
\<close>

definition getBackoffDelay :: "nat \<Rightarrow> real \<Rightarrow> real \<Rightarrow> real \<Rightarrow> int" where
  "getBackoffDelay attempt baseDelay maxDelay rnd =
     (let delay = min (fl (baseDelay * 2 ^ attempt)) maxDelay;
          jitter = fl (fl (delay * fl (1 / 10)) * fl (fl (rnd * 2) - 1))
      in \<lfloor>fl (delay + jitter)\<rfloor>)"

section \<open>The offline store (src/lib/indexed-db.ts)\<close>

text \<open>
  The key-value store of idb-keyval is an association list from string keys to captures,
  with at most one entry for a key: \<^verbatim>\<open>set\<close> replaces the value of a key that is present
  and adds the entry otherwise, \<^verbatim>\<open>del\<close> removes the entry, \<^verbatim>\<open>keys\<close> lists the keys in
  ascending order, which for strings is the lexicographic order of their characters, and
  \<^verbatim>\<open>get\<close> looks one up. The promises returned by the store are taken to resolve at once
  and without an error.
\<close>

type_synonym offlineStore = "(string \<times> captureItem) list"

definition STORE_PREFIX :: string where
  "STORE_PREFIX = ''upload_queue_''"

fun idb_set :: "string \<Rightarrow> captureItem \<Rightarrow> offlineStore \<Rightarrow> offlineStore" where
  "idb_set k v [] = [(k, v)]"
| "idb_set k v ((k', v') # db) =
     (if k' = k then (k, v) # db else (k', v') # idb_set k v db)"

definition idb_del :: "string \<Rightarrow> offlineStore \<Rightarrow> offlineStore" where
  "idb_del k db = filter (\<lambda>e. fst e \<noteq> k) db"

definition idb_keys :: "offlineStore \<Rightarrow> string list" where
  "idb_keys db = sort (map fst db)"

definition idb_get :: "string \<Rightarrow> offlineStore \<Rightarrow> captureItem option" where
  "idb_get k db = map_of db k"

definition saveToOfflineQueue :: "captureItem \<Rightarrow> offlineStore \<Rightarrow> offlineStore" where
  "saveToOfflineQueue capture db = idb_set (STORE_PREFIX @ item_id capture) capture db"

definition removeFromOfflineQueue :: "string \<Rightarrow> offlineStore \<Rightarrow> offlineStore" where
  "removeFromOfflineQueue captureId db = idb_del (STORE_PREFIX @ captureId) db"

text \<open>The loop of \<^verbatim>\<open>getOfflineQueue\<close> pushes the capture of each key that has one.\<close>

fun collectCaptures :: "offlineStore \<Rightarrow> string list \<Rightarrow> captureItem list" where
  "collectCaptures db [] = []"
| "collectCaptures db (k # ks) =
     (case idb_get k db of
        None \<Rightarrow> collectCaptures db ks
      | Some capture \<Rightarrow> capture # collectCaptures db ks)"

definition getOfflineQueue :: "offlineStore \<Rightarrow> captureItem list" where
  "getOfflineQueue db =
     (let allKeys = idb_keys db;
          queueKeys = filter (\<lambda>k. prefix STORE_PREFIX k) allKeys
      in collectCaptures db queueKeys)"

section \<open>The upload queue hook (src/hooks/useUploadQueue.ts)\<close>

definition MAX_RETRIES :: nat where
  "MAX_RETRIES = 5"

definition DELAY_BETWEEN_UPLOADS_MS :: real where
  "DELAY_BETWEEN_UPLOADS_MS = 300"

text \<open>The result of \<^verbatim>\<open>uploadItem\<close>: \<^verbatim>\<open>'success' | 'error' | 'rate_limit'\<close>.\<close>

datatype uploadResult = R_success | R_error | R_rate_limit

text \<open>
  The two callbacks that the hook gives to \<^verbatim>\<open>setTimeout\<close> and keeps a handle of:
  the one stored in \<^verbatim>\<open>nextTimerRef\<close> and the one stored in \<^verbatim>\<open>rateLimitTimerRef\<close>.
\<close>

datatype timerCallback = NextTick | RateLimitTick

text \<open>
  A call of \<^verbatim>\<open>processNext\<close> that is suspended at an \<^verbatim>\<open>await\<close>, with the
  \<^verbatim>\<open>nextItem\<close> it has captured: at the per-item backoff delay (with the delay), or at
  the call of \<^verbatim>\<open>uploadItem\<close>.
\<close>

datatype suspension = AwaitBackoff captureItem int | AwaitUpload captureItem

text \<open>
  The state of one mounted hook: the three React states, the six refs, and the part of the
  environment that the hook acts on: the timers that are scheduled and not yet fired or
  cleared (handle, callback, delay in ms), the next timer handle, the suspended calls of
  \<^verbatim>\<open>processNext\<close>, and the offline store.
\<close>

record engine =
  queue :: "captureItem list"
  isUploading :: bool
  isRateLimited :: bool
  mountedRef :: bool
  processingRef :: bool
  nextTimerRef :: "nat option"
  rateLimitTimerRef :: "nat option"
  queueRef :: "captureItem list"
  consecutiveRateLimitsRef :: nat
  timers :: "(nat \<times> timerCallback \<times> real) list"
  nextHandle :: nat
  suspended :: "suspension list"
  idb :: offlineStore

text \<open>The hook after its first render and the mount effect, on a given store.\<close>

definition initEngine :: "offlineStore \<Rightarrow> engine" where
  "initEngine db =
     \<lparr>queue = [], isUploading = False, isRateLimited = False, mountedRef = True,
      processingRef = False, nextTimerRef = None, rateLimitTimerRef = None, queueRef = [],
      consecutiveRateLimitsRef = 0, timers = [], nextHandle = 1, suspended = [], idb = db\<rparr>"

text \<open>\<^verbatim>\<open>setTimeout\<close> returns the handle \<open>nextHandle s\<close>; \<^verbatim>\<open>clearTimeout\<close> of a ref.\<close>

definition setTimeout :: "timerCallback \<Rightarrow> real \<Rightarrow> engine \<Rightarrow> engine" where
  "setTimeout cb ms s =
     s\<lparr>timers := timers s @ [(nextHandle s, cb, ms)], nextHandle := nextHandle s + 1\<rparr>"

definition clearTimeoutRef :: "nat option \<Rightarrow> engine \<Rightarrow> engine" where
  "clearTimeoutRef r s =
     (case r of
        None \<Rightarrow> s
      | Some h \<Rightarrow> s\<lparr>timers := filter (\<lambda>t. fst t \<noteq> h) (timers s)\<rparr>)"

text \<open>The cleanup of the mount effect.\<close>

definition unmount :: "engine \<Rightarrow> engine" where
  "unmount s =
     clearTimeoutRef (rateLimitTimerRef s)
       (clearTimeoutRef (nextTimerRef s) (s\<lparr>mountedRef := False\<rparr>))"

subsection \<open>uploadProgress\<close>

record progress =
  success :: nat
  failed :: nat
  pending :: nat

definition uploadProgress :: "captureItem list \<Rightarrow> progress" where
  "uploadProgress q =
     \<lparr>success = length (filter (\<lambda>item. status item = Success) q),
      failed = length (filter (\<lambda>item. status item = Error \<and> retryCount item \<ge> MAX_RETRIES) q),
      pending = length (filter (\<lambda>item. status item = Pending \<or> status item = Uploading) q)\<rparr>"

subsection \<open>processNext\<close>

text \<open>The predicate of the \<^verbatim>\<open>find\<close> in \<^verbatim>\<open>processNext\<close> and of the \<^verbatim>\<open>some\<close> in the auto-start effect.\<close>

definition eligible :: "captureItem \<Rightarrow> bool" where
  "eligible item \<longleftrightarrow> status item = Pending \<and> retryCount item < MAX_RETRIES"

text \<open>The updater \<^verbatim>\<open>prev.map((q) => (q.id === nextItem.id ? f q : q))\<close>.\<close>

definition mapItem :: "string \<Rightarrow> (captureItem \<Rightarrow> captureItem) \<Rightarrow> captureItem list \<Rightarrow> captureItem list" where
  "mapItem i f prev = map (\<lambda>q. if item_id q = i then f q else q) prev"

text \<open>
  \<^verbatim>\<open>processNext\<close> from its start to its first \<^verbatim>\<open>await\<close>: the backoff delay when the
  item has been retried, the call of \<^verbatim>\<open>uploadItem\<close> otherwise. \<open>rnd\<close> is the value of
  \<^verbatim>\<open>Math.random()\<close> in \<^verbatim>\<open>getBackoffDelay\<close>.
\<close>

definition processNext :: "real \<Rightarrow> engine \<Rightarrow> engine" where
  "processNext rnd s =
     (if \<not> mountedRef s then s
      else
        (case find eligible (queueRef s) of
           None \<Rightarrow> s\<lparr>processingRef := False, isUploading := False\<rparr>
         | Some nextItem \<Rightarrow>
             (let s1 = s\<lparr>isUploading := True,
                         queue := mapItem (item_id nextItem) (\<lambda>q. q\<lparr>status := Uploading\<rparr>) (queue s)\<rparr>
              in if retryCount nextItem > 0
                 then s1\<lparr>suspended := suspended s1 @
                        [AwaitBackoff nextItem (getBackoffDelay (retryCount nextItem) 1000 30000 rnd)]\<rparr>
                 else s1\<lparr>suspended := suspended s1 @ [AwaitUpload nextItem]\<rparr>)))"

text \<open>
  The backoff delay of a suspended \<^verbatim>\<open>processNext\<close> has elapsed: it goes on to the call
  of \<^verbatim>\<open>uploadItem\<close>, unless the hook is unmounted. The suspended call is the one at
  position \<open>i\<close>; the event does nothing when there is no such call.
\<close>

definition takeSuspended :: "nat \<Rightarrow> engine \<Rightarrow> engine" where
  "takeSuspended i s = s\<lparr>suspended := take i (suspended s) @ drop (Suc i) (suspended s)\<rparr>"

definition backoffElapsed :: "nat \<Rightarrow> engine \<Rightarrow> engine" where
  "backoffElapsed i s =
     (if i < length (suspended s)
      then (case suspended s ! i of
              AwaitBackoff nextItem delay \<Rightarrow>
                (let s1 = takeSuspended i s
                 in if \<not> mountedRef s1 then s1
                    else s1\<lparr>suspended := suspended s1 @ [AwaitUpload nextItem]\<rparr>)
            | AwaitUpload nextItem \<Rightarrow> s)
      else s)"

text \<open>Decimal digits of a number, for the template string of the error message.\<close>

fun showNat :: "nat \<Rightarrow> string" where
  "showNat n =
     (if n < 10 then [''0123456789'' ! n]
      else showNat (n div 10) @ [''0123456789'' ! (n mod 10)])"

declare showNat.simps [simp del]

text \<open>The three branches of \<^verbatim>\<open>processNext\<close> after \<^verbatim>\<open>uploadItem\<close> has returned.\<close>

definition onSuccess :: "captureItem \<Rightarrow> engine \<Rightarrow> engine" where
  "onSuccess nextItem s =
     (let s1 = s\<lparr>consecutiveRateLimitsRef := 0,
                 queue := mapItem (item_id nextItem) (\<lambda>q. q\<lparr>status := Success\<rparr>) (queue s),
                 idb := removeFromOfflineQueue (item_id nextItem) (idb s)\<rparr>
      in (setTimeout NextTick DELAY_BETWEEN_UPLOADS_MS s1)\<lparr>nextTimerRef := Some (nextHandle s1)\<rparr>)"

text \<open>
  The duration of the rate-limit pause: \<open>hitCount\<close> is the counter after its increment,
  \<open>rnd\<close> the value of \<^verbatim>\<open>Math.random()\<close>. \<^verbatim>\<open>Math.pow(2, hitCount - 1)\<close> is a power with
  an integer exponent, which is exact; the product and the two other operations round
  their results.
\<close>

definition rateLimitWaitMs :: "nat \<Rightarrow> real \<Rightarrow> real" where
  "rateLimitWaitMs hitCount rnd =
     (let baseBackoffMs = 30000;
          backoffMs = min (fl (baseBackoffMs * 2 powi (int hitCount - 1))) 180000;
          jitter = fl (rnd * 5000);
          totalWaitMs = fl (backoffMs + jitter)
      in totalWaitMs)"

definition onRateLimit :: "captureItem \<Rightarrow> real \<Rightarrow> engine \<Rightarrow> engine" where
  "onRateLimit nextItem rnd s =
     (let hitCount = consecutiveRateLimitsRef s + 1;
          s1 = s\<lparr>consecutiveRateLimitsRef := hitCount,
                 queue := mapItem (item_id nextItem) (\<lambda>q. q\<lparr>status := Pending\<rparr>) (queue s),
                 isRateLimited := True,
                 isUploading := False\<rparr>
      in (setTimeout RateLimitTick (rateLimitWaitMs hitCount rnd) s1)
           \<lparr>rateLimitTimerRef := Some (nextHandle s1)\<rparr>)"

definition onError :: "captureItem \<Rightarrow> engine \<Rightarrow> engine" where
  "onError nextItem s =
     (let newRetryCount = retryCount nextItem + 1;
          isFinalFailure = (newRetryCount \<ge> MAX_RETRIES);
          s1 = s\<lparr>queue := mapItem (item_id nextItem)
                   (\<lambda>q. q\<lparr>status := (if isFinalFailure then Error else Pending),
                          retryCount := newRetryCount,
                          errorMessage := Some (if isFinalFailure then ''Max retries exceeded''
                             else ''Upload failed, retry '' @ showNat newRetryCount @ ''/''
                                  @ showNat MAX_RETRIES)\<rparr>)
                   (queue s)\<rparr>;
          s2 = (if isFinalFailure
                then s1\<lparr>idb := saveToOfflineQueue
                                 (nextItem\<lparr>status := Error, retryCount := newRetryCount\<rparr>) (idb s1)\<rparr>
                else s1)
      in (setTimeout NextTick DELAY_BETWEEN_UPLOADS_MS s2)\<lparr>nextTimerRef := Some (nextHandle s2)\<rparr>)"

text \<open>
  \<^verbatim>\<open>uploadItem\<close> of the suspended call at position \<open>i\<close> has returned \<open>result\<close>: the rest
  of \<^verbatim>\<open>processNext\<close>. \<open>rnd\<close> is the value of \<^verbatim>\<open>Math.random()\<close> of the rate-limit branch.
\<close>

definition uploadResolved :: "nat \<Rightarrow> uploadResult \<Rightarrow> real \<Rightarrow> engine \<Rightarrow> engine" where
  "uploadResolved i result rnd s =
     (if i < length (suspended s)
      then (case suspended s ! i of
              AwaitBackoff nextItem delay \<Rightarrow> s
            | AwaitUpload nextItem \<Rightarrow>
                (let s1 = takeSuspended i s
                 in if \<not> mountedRef s1 then s1
                    else (case result of
                            R_success \<Rightarrow> onSuccess nextItem s1
                          | R_rate_limit \<Rightarrow> onRateLimit nextItem rnd s1
                          | R_error \<Rightarrow> onError nextItem s1)))
      else s)"

text \<open>
  The timer with handle \<open>h\<close> fires and runs its callback; nothing happens when no such
  timer is scheduled (it has fired or was cleared).
\<close>

definition timerFires :: "nat \<Rightarrow> real \<Rightarrow> engine \<Rightarrow> engine" where
  "timerFires h rnd s =
     (case find (\<lambda>t. fst t = h) (timers s) of
        None \<Rightarrow> s
      | Some t \<Rightarrow>
          (let s1 = s\<lparr>timers := filter (\<lambda>t. fst t \<noteq> h) (timers s)\<rparr>
           in case fst (snd t) of
                NextTick \<Rightarrow> (if mountedRef s1 then processNext rnd s1 else s1)
              | RateLimitTick \<Rightarrow>
                  (if mountedRef s1 then processNext rnd (s1\<lparr>isRateLimited := False\<rparr>) else s1)))"

subsection \<open>The entry points\<close>

definition startProcessing :: "real \<Rightarrow> engine \<Rightarrow> engine" where
  "startProcessing rnd s =
     (if processingRef s \<or> \<not> mountedRef s then s
      else processNext rnd (s\<lparr>processingRef := True\<rparr>))"

text \<open>
  \<^verbatim>\<open>addToQueue\<close>: \<open>newId\<close> is the value of \<^verbatim>\<open>generateSessionId()\<close> and \<open>fname\<close> the
  value of the template string for the file name, which reads the clock.
\<close>

definition addToQueue :: "string \<Rightarrow> string \<Rightarrow> string \<Rightarrow> captureMetadata \<Rightarrow> engine \<Rightarrow> engine" where
  "addToQueue newId fname img meta s =
     (let item = \<lparr>item_id = newId, imageBase64 = img, metadata = meta, filename = fname,
                  status = Pending, retryCount = 0, errorMessage = None, driveFileId = None\<rparr>
      in s\<lparr>queue := queue s @ [item]\<rparr>)"

definition retryFailedUpdater :: "captureItem list \<Rightarrow> captureItem list" where
  "retryFailedUpdater prev =
     map (\<lambda>item. if status item = Error \<and> retryCount item \<ge> MAX_RETRIES
                  then item\<lparr>status := Pending, retryCount := 0\<rparr> else item) prev"

definition retryFailed :: "engine \<Rightarrow> engine" where
  "retryFailed s = s\<lparr>queue := retryFailedUpdater (queue s)\<rparr>"

definition clearQueue :: "engine \<Rightarrow> engine" where
  "clearQueue s =
     clearTimeoutRef (rateLimitTimerRef s)
       (clearTimeoutRef (nextTimerRef s) (s\<lparr>queue := [], processingRef := False\<rparr>))"

text \<open>\<^verbatim>\<open>loadOfflineQueue\<close>, with the store read in one step.\<close>

definition loadOfflineQueue :: "engine \<Rightarrow> engine" where
  "loadOfflineQueue s =
     (let offlineItems = getOfflineQueue (idb s)
      in if length offlineItems > 0 then s\<lparr>queue := queue s @ offlineItems\<rparr> else s)"

subsection \<open>Effects and events\<close>

text \<open>
  The two effects that run after a render: the one that copies \<^verbatim>\<open>queue\<close> into
  \<^verbatim>\<open>queueRef\<close>, then the auto-start effect. When the auto-start effect has started
  \<^verbatim>\<open>processNext\<close>, the queue it has set is rendered and copied in turn. An unmounted
  hook renders nothing.
\<close>

definition autoStart :: "real \<Rightarrow> engine \<Rightarrow> engine" where
  "autoStart rnd s =
     (let hasPending = list_ex eligible (queue s)
      in if hasPending \<and> \<not> processingRef s \<and> \<not> isRateLimited s
         then startProcessing rnd s else s)"

definition effects :: "real \<Rightarrow> engine \<Rightarrow> engine" where
  "effects rnd s =
     (if \<not> mountedRef s then s
      else (let s1 = autoStart rnd (s\<lparr>queueRef := queue s\<rparr>)
            in s1\<lparr>queueRef := queue s1\<rparr>))"

text \<open>
  What can happen to a mounted hook: the calls of its entry points by the component, the
  unmount, and the three ways in which the JavaScript event loop resumes the hook. React
  renders and runs the effects after each of them.
\<close>

datatype event =
    AddToQueue string string string captureMetadata
  | RetryFailed
  | ClearQueue
  | LoadOfflineQueue
  | Unmount
  | BackoffElapsed nat
  | UploadResolved nat uploadResult
  | TimerFires nat

fun handler :: "real \<Rightarrow> event \<Rightarrow> engine \<Rightarrow> engine" where
  "handler rnd (AddToQueue newId fname img meta) s = addToQueue newId fname img meta s"
| "handler rnd RetryFailed s = retryFailed s"
| "handler rnd ClearQueue s = clearQueue s"
| "handler rnd LoadOfflineQueue s = loadOfflineQueue s"
| "handler rnd Unmount s = unmount s"
| "handler rnd (BackoffElapsed i) s = backoffElapsed i s"
| "handler rnd (UploadResolved i result) s = uploadResolved i result rnd s"
| "handler rnd (TimerFires h) s = timerFires h rnd s"

definition fire :: "real \<Rightarrow> event \<Rightarrow> engine \<Rightarrow> engine" where
  "fire rnd e s = effects rnd (handler rnd e s)"

text \<open>A run: the events in order, each with its random number.\<close>

fun run :: "(real \<times> event) list \<Rightarrow> engine \<Rightarrow> engine" where
  "run [] s = s"
| "run ((rnd, e) # es) s = run es (fire rnd e s)"

section \<open>Notions used in the statements\<close>

text \<open>The item that a suspended call of \<^verbatim>\<open>processNext\<close> has captured.\<close>

definition nextItemOf :: "suspension \<Rightarrow> captureItem" where
  "nextItemOf c =
     (case c of AwaitBackoff nextItem delay \<Rightarrow> nextItem | AwaitUpload nextItem \<Rightarrow> nextItem)"

definition uploadingCount :: "captureItem list \<Rightarrow> nat" where
  "uploadingCount q = length (filter (\<lambda>item. status item = Uploading) q)"

text \<open>
  The invariant behind single-concurrency delivery: the ids of the queue are distinct; at
  most one continuation of the processing chain is alive (a suspended call or a timer);
  none is alive while \<^verbatim>\<open>processingRef\<close> is false; while the hook is mounted every
  item marked \<^verbatim>\<open>uploading\<close> is the item of a suspended call; one of the two timer refs
  holds the handle of a scheduled timer; and at most one item is marked \<^verbatim>\<open>uploading\<close>.
\<close>

definition engineInv :: "engine \<Rightarrow> bool" where
  "engineInv s \<longleftrightarrow>
     distinct (map item_id (queue s)) \<and>
     length (suspended s) + length (timers s) \<le> 1 \<and>
     (\<not> processingRef s \<longrightarrow> suspended s = [] \<and> timers s = []) \<and>
     (mountedRef s \<longrightarrow>
        (\<forall>q \<in> set (queue s). status q = Uploading \<longrightarrow>
           (\<exists>c \<in> set (suspended s). item_id (nextItemOf c) = item_id q))) \<and>
     (\<forall>t \<in> set (timers s).
        nextTimerRef s = Some (fst t) \<or> rateLimitTimerRef s = Some (fst t)) \<and>
     uploadingCount (queue s) \<le> 1"

text \<open>
  The store holds, under the key of the item, a capture with the id of the item that is
  \<^verbatim>\<open>error\<close> with all retries used up.
\<close>

definition persisted :: "offlineStore \<Rightarrow> captureItem \<Rightarrow> bool" where
  "persisted db q =
     (case idb_get (STORE_PREFIX @ item_id q) db of
        None \<Rightarrow> False
      | Some c \<Rightarrow> item_id c = item_id q \<and> status c = Error \<and> retryCount c = MAX_RETRIES)"

text \<open>
  The states that the hook reaches from its mount by enqueues, completions of an attempt
  and expiries of a timer, in any order, together with \<^verbatim>\<open>retryFailed\<close>, the unmount and
  the rehydration from the store. \<^verbatim>\<open>generateSessionId\<close> returns an id that no item of
  the queue has, and the store gives what the hook has saved: captures that are not in the
  queue already, each \<^verbatim>\<open>error\<close> with all retries used up and held under its key.
  \<^verbatim>\<open>clearQueue\<close> is among these events when no call of \<^verbatim>\<open>processNext\<close> is suspended,
  that is, when no attempt is in flight.
\<close>

inductive reachable :: "engine \<Rightarrow> bool" where
  start: "reachable (initEngine db)"
| rehydrate:
    "reachable s \<Longrightarrow> distinct (map item_id (queue s @ getOfflineQueue (idb s))) \<Longrightarrow>
     \<forall>c \<in> set (getOfflineQueue (idb s)).
        status c = Error \<and> retryCount c = MAX_RETRIES \<and> persisted (idb s) c \<Longrightarrow>
     reachable (fire rnd LoadOfflineQueue s)"
| enqueue:
    "reachable s \<Longrightarrow> newId \<notin> set (map item_id (queue s)) \<Longrightarrow>
     reachable (fire rnd (AddToQueue newId fname img meta) s)"
| retry: "reachable s \<Longrightarrow> reachable (fire rnd RetryFailed s)"
| backoff_expiry: "reachable s \<Longrightarrow> reachable (fire rnd (BackoffElapsed i) s)"
| tick_completion: "reachable s \<Longrightarrow> reachable (fire rnd (UploadResolved i result) s)"
| timer_expiry: "reachable s \<Longrightarrow> reachable (fire rnd (TimerFires h) s)"
| teardown: "reachable s \<Longrightarrow> reachable (fire rnd Unmount s)"
| clear_idle: "reachable s \<Longrightarrow> suspended s = [] \<Longrightarrow> reachable (fire rnd ClearQueue s)"

text \<open>Every item marked \<^verbatim>\<open>error\<close> has used up its retries; the same for a store.\<close>

definition errorsExhausted :: "captureItem list \<Rightarrow> bool" where
  "errorsExhausted q \<longleftrightarrow>
     (\<forall>item \<in> set q. status item = Error \<longrightarrow> retryCount item \<ge> MAX_RETRIES)"

definition storeExhausted :: "offlineStore \<Rightarrow> bool" where
  "storeExhausted db \<longleftrightarrow> errorsExhausted (map snd db)"

text \<open>The delay of \<^verbatim>\<open>getBackoffDelay\<close> before the jitter, with the default arguments.\<close>

definition cappedDelay :: "nat \<Rightarrow> real" where
  "cappedDelay attempt = min (1000 * 2 ^ attempt) 30000"

text \<open>
  The expectation of the backoff delay when \<^verbatim>\<open>Math.random()\<close> is uniform on the \<open>N\<close>
  numbers \<open>0/N, 1/N, \<dots>, (N-1)/N\<close>.
\<close>

definition expectedDelay :: "nat \<Rightarrow> nat \<Rightarrow> real" where
  "expectedDelay N attempt =
     (\<Sum>k<N. real_of_int (getBackoffDelay attempt 1000 30000 (real k / real N))) / real N"

text \<open>
  The events of a stretch in which every attempt is answered by a rate limit: the
  completions with \<^verbatim>\<open>'rate_limit'\<close>, and the expiries of timers and backoff delays.
\<close>

fun rateLimitedOnly :: "event \<Rightarrow> bool" where
  "rateLimitedOnly (UploadResolved i result) = (result = R_rate_limit)"
| "rateLimitedOnly (TimerFires h) = True"
| "rateLimitedOnly (BackoffElapsed i) = True"
| "rateLimitedOnly e = False"

text \<open>
  The invariant behind the retry budget: no item has more than \<open>MAX_RETRIES\<close> retries, the
  \<^verbatim>\<open>error\<close> items are those that have used them up, and each of them is persisted; an
  item in flight has retries left; and while the hook is mounted, the item in flight is
  in the queue, marked \<^verbatim>\<open>uploading\<close>, with the retry count of the snapshot.
\<close>

definition retryInv :: "engine \<Rightarrow> bool" where
  "retryInv s \<longleftrightarrow>
     (\<forall>q \<in> set (queue s).
        retryCount q \<le> MAX_RETRIES \<and>
        (status q = Error \<longleftrightarrow> retryCount q = MAX_RETRIES) \<and>
        (status q = Error \<longrightarrow> persisted (idb s) q)) \<and>
     (\<forall>c \<in> set (suspended s). retryCount (nextItemOf c) < MAX_RETRIES) \<and>
     (mountedRef s \<longrightarrow>
        (\<forall>c \<in> set (suspended s).
           item_id (nextItemOf c) \<in> set (map item_id (queue s)) \<and>
           (\<forall>q \<in> set (queue s). item_id q = item_id (nextItemOf c) \<longrightarrow>
              retryCount q = retryCount (nextItemOf c) \<and> status q = Uploading)))"

definition synced :: "engine \<Rightarrow> bool" where
  "synced s \<longleftrightarrow> (mountedRef s \<longrightarrow> queueRef s = queue s)"

text \<open>
  The event is the completion, with \<^verbatim>\<open>'error'\<close>, of an attempt of the item with id \<open>a\<close>
  on a mounted hook: a recoverable-error outcome that the item receives.
\<close>

definition errorOutcomeFor :: "string \<Rightarrow> event \<Rightarrow> engine \<Rightarrow> bool" where
  "errorOutcomeFor a e s =
     (case e of
        UploadResolved i result \<Rightarrow>
          result = R_error \<and> mountedRef s \<and> i < length (suspended s) \<and>
          (case suspended s ! i of
             AwaitBackoff nextItem delay \<Rightarrow> False
           | AwaitUpload nextItem \<Rightarrow> item_id nextItem = a)
      | _ \<Rightarrow> False)"

text \<open>The number of recoverable-error outcomes that the item with id \<open>a\<close> receives in a run.\<close>

fun errorOutcomes :: "string \<Rightarrow> (real \<times> event) list \<Rightarrow> engine \<Rightarrow> nat" where
  "errorOutcomes a [] s = 0"
| "errorOutcomes a ((rnd, e) # es) s =
     (if errorOutcomeFor a e s then 1 else 0) + errorOutcomes a es (fire rnd e s)"

text \<open>
  The events of the delivery itself: enqueues (of an id that no item of the queue has),
  completions of an attempt, expiries, and the unmount; and the runs made of them.
\<close>

fun deliveryEvent :: "event \<Rightarrow> engine \<Rightarrow> bool" where
  "deliveryEvent (AddToQueue newId fname img meta) s = (newId \<notin> set (map item_id (queue s)))"
| "deliveryEvent (BackoffElapsed i) s = True"
| "deliveryEvent (UploadResolved i result) s = True"
| "deliveryEvent (TimerFires h) s = True"
| "deliveryEvent Unmount s = True"
| "deliveryEvent e s = False"

fun deliveryRun :: "(real \<times> event) list \<Rightarrow> engine \<Rightarrow> bool" where
  "deliveryRun [] s = True"
| "deliveryRun ((rnd, e) # es) s = (deliveryEvent e s \<and> deliveryRun es (fire rnd e s))"

text \<open>The events by which the event loop resumes the hook.\<close>

fun resumption :: "event \<Rightarrow> bool" where
  "resumption (BackoffElapsed i) = True"
| "resumption (UploadResolved i result) = True"
| "resumption (TimerFires h) = True"
| "resumption e = False"






subsection \<open>Example data\<close>

definition exampleMetadata :: captureMetadata where
  "exampleMetadata =
     \<lparr>label = looking_center, phase = PhaseA, seq = 1,
      timestamp_iso = ''2024-01-01T00:00:00.000Z'', ua = ''ua'', session_id = ''s'',
      camera_facing = FacingUser, device_platform = ''linux''\<rparr>"

definition exampleItem :: "string \<Rightarrow> uploadStatus \<Rightarrow> nat \<Rightarrow> captureItem" where
  "exampleItem i st n =
     \<lparr>item_id = i, imageBase64 = ''img'', metadata = exampleMetadata, filename = ''f.jpg'',
      status = st, retryCount = n, errorMessage = None, driveFileId = None\<rparr>"

definition enqueueExample :: "string \<Rightarrow> real \<times> event" where
  "enqueueExample i = (0, AddToQueue i ''f.jpg'' ''img'' exampleMetadata)"

text \<open>A hook whose only item is in flight: one enqueue on a fresh hook.\<close>

definition inFlightExample :: engine where
  "inFlightExample = run [enqueueExample ''a''] (initEngine [])"

text \<open>
  One item whose five attempts all return \<^verbatim>\<open>'error'\<close>: the enqueue, then the completion
  of an attempt, the timer of the next tick and the backoff delay, in turn.
\<close>

definition fiveErrors :: "(real \<times> event) list" where
  "fiveErrors =
     [enqueueExample ''a'',
      (0, UploadResolved 0 R_error), (1/2, TimerFires 1), (0, BackoffElapsed 0),
      (0, UploadResolved 0 R_error), (1/2, TimerFires 2), (0, BackoffElapsed 0),
      (0, UploadResolved 0 R_error), (1/2, TimerFires 3), (0, BackoffElapsed 0),
      (0, UploadResolved 0 R_error), (1/2, TimerFires 4), (0, BackoffElapsed 0),
      (0, UploadResolved 0 R_error)]"

definition afterFiveErrors :: engine where
  "afterFiveErrors = run fiveErrors (initEngine [])"

text \<open>
  \<^verbatim>\<open>clearQueue\<close> while the item \<open>a\<close> is in flight, then two more enqueues; the upload of
  \<open>a\<close> then succeeds and its timer fires.
\<close>

definition clearedInFlight :: engine where
  "clearedInFlight = run [enqueueExample ''a'', (0, ClearQueue)] (initEngine [])"

definition clearThenEnqueue :: "(real \<times> event) list" where
  "clearThenEnqueue =
     [enqueueExample ''a'', (0, ClearQueue), enqueueExample ''b'', enqueueExample ''c'',
      (0, UploadResolved 0 R_success), (0, TimerFires 1)]"

text \<open>
  Three items whose uploads all succeed; one item whose upload is answered by a rate limit
  twice and then succeeds; and the ids of the items whose attempts complete in a run, in
  the order of the completions.
\<close>

definition threeSuccesses :: "(real \<times> event) list" where
  "threeSuccesses =
     [enqueueExample ''a'', enqueueExample ''b'', enqueueExample ''c'',
      (0, UploadResolved 0 R_success), (0, TimerFires 1),
      (0, UploadResolved 0 R_success), (0, TimerFires 2),
      (0, UploadResolved 0 R_success), (0, TimerFires 3)]"

definition rateLimitedTwice :: "(real \<times> event) list" where
  "rateLimitedTwice =
     [enqueueExample ''a'',
      (0, UploadResolved 0 R_rate_limit), (0, TimerFires 1),
      (0, UploadResolved 0 R_rate_limit), (0, TimerFires 2),
      (0, UploadResolved 0 R_success)]"

fun attempts :: "(real \<times> event) list \<Rightarrow> engine \<Rightarrow> string list" where
  "attempts [] s = []"
| "attempts ((rnd, e) # es) s =
     (case e of
        UploadResolved i result \<Rightarrow>
          (if i < length (suspended s) then [item_id (nextItemOf (suspended s ! i))] else [])
      | _ \<Rightarrow> [])
     @ attempts es (fire rnd e s)"

section \<open>Rounding to the nearest number\<close>

text \<open>
  Rounding is monotone and odd, it leaves the numbers \<open>m * 2 ^ k\<close> with \<open>\<bar>m\<bar> < 2 ^ 53\<close> as they
  are, it commutes with a scaling by a power of two, and it moves a number of magnitude at
  most \<open>2 ^ k\<close> by at most \<open>2 ^ (k - 53)\<close>.
\<close>

lemma roundEven_cases:
  "roundEven y = \<lfloor>y\<rfloor> \<or> roundEven y = \<lfloor>y\<rfloor> + 1"
  by (simp add: roundEven_def Let_def)

lemma roundEven_of_int [simp]: "roundEven (of_int n) = n"
  by (simp add: roundEven_def)

lemma roundEven_error: "\<bar>of_int (roundEven y) - y\<bar> \<le> 1/2"
  unfolding roundEven_def Let_def by (auto simp: abs_le_iff)

lemma roundEven_mono:
  assumes "x \<le> y"
  shows "roundEven x \<le> roundEven y"
proof (cases "\<lfloor>x\<rfloor> = \<lfloor>y\<rfloor>")
  case True
  with assms show ?thesis
    by (auto simp: roundEven_def Let_def)
next
  case False
  with assms have "\<lfloor>x\<rfloor> < \<lfloor>y\<rfloor>" using floor_mono [of x y] by simp
  moreover have "roundEven x \<le> \<lfloor>x\<rfloor> + 1" using roundEven_cases [of x] by auto
  moreover have "\<lfloor>y\<rfloor> \<le> roundEven y" using roundEven_cases [of y] by auto
  ultimately show ?thesis by simp
qed

lemma roundEven_minus: "roundEven (- y) = - roundEven y"
proof (cases "y \<in> \<int>")
  case True
  then obtain n where "y = of_int n" by (auto elim: Ints_cases)
  then have "- y = of_int (- n)" by simp
  with \<open>y = of_int n\<close> show ?thesis by (simp only: roundEven_of_int)
next
  case False
  then have ne: "y \<noteq> of_int \<lfloor>y\<rfloor>" by (metis Ints_of_int)
  then have f: "\<lfloor>- y\<rfloor> = - \<lfloor>y\<rfloor> - 1"
    by (simp add: floor_minus ceiling_altdef)
  from ne have "of_int \<lfloor>y\<rfloor> < y" using of_int_floor_le [of y] by linarith
  then show ?thesis
    unfolding roundEven_def Let_def f by (auto simp: field_simps)
qed

lemma binade_iff:
  "x \<noteq> 0 \<Longrightarrow> binade x = k \<longleftrightarrow> 2 powi k \<le> \<bar>x\<bar> \<and> \<bar>x\<bar> < 2 powi (k + 1)"
proof -
  assume "x \<noteq> 0"
  then have pos: "0 < \<bar>x\<bar>" by simp
  have a: "2 powr real_of_int k = 2 powi k" for k
    by (rule powr_real_of_int') simp_all
  from floor_log_eq_powr_iff [OF pos, of 2 k, unfolded a] show ?thesis
    by (simp add: binade_def)
qed

lemma binade_bounds:
  assumes "x \<noteq> 0"
  shows "2 powi binade x \<le> \<bar>x\<bar>" "\<bar>x\<bar> < 2 powi (binade x + 1)"
  using binade_iff [OF assms, of "binade x"] by simp_all

lemma binade_minus [simp]: "binade (- x) = binade x"
  by (simp add: binade_def)

lemma fl_eval:
  assumes "2 powi e \<le> \<bar>x\<bar>" "\<bar>x\<bar> < 2 powi (e + 1)"
  shows "fl x = of_int (roundEven (x / 2 powi (e - 52))) * 2 powi (e - 52)"
proof -
  have "0 < (2::real) powi e" by (rule zero_less_power_int) simp
  with assms(1) have "0 < \<bar>x\<bar>" by linarith
  then have "x \<noteq> 0" by simp
  with assms have "binade x = e" by (simp add: binade_iff)
  with \<open>x \<noteq> 0\<close> show ?thesis by (simp add: fl_def)
qed

lemma fl_minus: "fl (- x) = - fl x"
  by (simp add: fl_def roundEven_minus)


lemma pow2_powi_less_iff: "(2::real) powi a < 2 powi b \<longleftrightarrow> a < b"
proof
  assume "(2::real) powi a < 2 powi b"
  then show "a < b"
    using power_int_increasing [of b a "2::real"] by (cases "a < b") auto
next
  assume "a < b"
  then show "(2::real) powi a < 2 powi b"
    by (intro power_int_strict_increasing) simp_all
qed

lemma fl_exact:
  assumes "\<bar>m\<bar> < 2 ^ 53"
  shows "fl (of_int m * 2 powi k) = of_int m * 2 powi k"
proof (cases "m = 0")
  case True
  then show ?thesis by (simp add: fl_def)
next
  case False
  define x :: real where "x = of_int m * 2 powi k"
  have p: "0 < (2::real) powi j" for j by (rule zero_less_power_int) simp
  from False have x0: "x \<noteq> 0" using p [of k] by (simp add: x_def)
  define e where "e = binade x"
  from binade_bounds(1) [OF x0] have "2 powi e \<le> \<bar>of_int m\<bar> * (2::real) powi k"
    using p [of k] by (simp add: e_def x_def abs_mult)
  also have "\<dots> < 2 ^ 53 * 2 powi k"
  proof -
    from assms have "\<bar>real_of_int m\<bar> < 2 ^ 53"
      by (metis of_int_abs of_int_less_iff of_int_numeral of_int_power)
    then show ?thesis using p [of k] by simp
  qed
  also have "\<dots> = 2 powi (53 + k)"
    by (simp add: power_int_add)
  finally have "e < 53 + k" by (simp only: pow2_powi_less_iff)
  define n where "n = nat (k - (e - 52))"
  with \<open>e < 53 + k\<close> have n: "k - (e - 52) = int n" by simp
  have "x / 2 powi (e - 52) = of_int m * 2 powi (k - (e - 52))"
    by (simp add: x_def power_int_diff)
  also have "\<dots> = of_int (m * 2 ^ n)"
    by (simp add: n)
  finally have "roundEven (x / 2 powi (e - 52)) = m * 2 ^ n"
    by (simp only: roundEven_of_int)
  then have "fl x = of_int (m * 2 ^ n) * 2 powi (e - 52)"
    using x0 by (simp add: fl_def e_def)
  also have "\<dots> = of_int m * (2 powi (int n) * 2 powi (e - 52))"
    by simp
  also have "2 powi (int n) * (2::real) powi (e - 52) = 2 powi (int n + (e - 52))"
    by (simp add: power_int_add)
  also have "int n + (e - 52) = k" using n by simp
  finally show ?thesis by (simp add: x_def)
qed

lemma fl_of_int: "\<bar>m\<bar> < 2 ^ 53 \<Longrightarrow> fl (of_int m) = of_int m"
  using fl_exact [of m 0] by simp

lemma fl_nonneg:
  assumes "0 \<le> x"
  shows "0 \<le> fl x"
proof -
  have p: "0 < (2::real) powi j" for j by (rule zero_less_power_int) simp
  from assms have "0 \<le> x / 2 powi (binade x - 52)" using p by simp
  then have "roundEven 0 \<le> roundEven (x / 2 powi (binade x - 52))" by (rule roundEven_mono)
  then have "0 \<le> roundEven (x / 2 powi (binade x - 52))" using roundEven_of_int [of 0] by simp
  then show ?thesis using p [of "binade x - 52"] by (simp add: fl_def)
qed

lemma pow2_ulp:
  "(2::real) powi (e + 1) = 2 ^ 53 * 2 powi (e - 52)"
  "(2::real) powi e = 2 ^ 52 * 2 powi (e - 52)"
proof -
  have "(2::real) powi (53 + (e - 52)) = 2 powi 53 * 2 powi (e - 52)"
    by (rule power_int_add) simp
  moreover have "53 + (e - 52) = e + 1" by simp
  moreover have "(2::real) powi 53 = 2 ^ 53"
    using power_int_of_nat [of "2::real" 53] by simp
  ultimately show "(2::real) powi (e + 1) = 2 ^ 53 * 2 powi (e - 52)" by simp
  have "(2::real) powi (52 + (e - 52)) = 2 powi 52 * 2 powi (e - 52)"
    by (rule power_int_add) simp
  moreover have "52 + (e - 52) = e" by simp
  moreover have "(2::real) powi 52 = 2 ^ 52"
    using power_int_of_nat [of "2::real" 52] by simp
  ultimately show "(2::real) powi e = 2 ^ 52 * 2 powi (e - 52)" by simp
qed

lemma fl_binade_bounds:
  assumes "0 < x"
  shows "2 powi binade x \<le> fl x" "fl x \<le> 2 powi (binade x + 1)"
proof -
  define u :: real where "u = 2 powi (binade x - 52)"
  have u: "0 < u" unfolding u_def by (rule zero_less_power_int) simp
  from assms have x0: "x \<noteq> 0" by simp
  have f: "fl x = of_int (roundEven (x / u)) * u"
    using x0 by (simp add: fl_def u_def)
  have "2 ^ 52 * u \<le> x"
    using binade_bounds(1) [OF x0] assms unfolding u_def pow2_ulp(2) [of "binade x", symmetric]
    by simp
  then have "of_int (2 ^ 52) \<le> x / u" using u by (simp add: field_simps)
  then have "roundEven (of_int (2 ^ 52)) \<le> roundEven (x / u)" by (rule roundEven_mono)
  then have "2 ^ 52 \<le> roundEven (x / u)" by (simp only: roundEven_of_int)
  then have "of_int (2 ^ 52) \<le> real_of_int (roundEven (x / u))" by (simp only: of_int_le_iff)
  then have "of_int (2 ^ 52) * u \<le> real_of_int (roundEven (x / u)) * u"
    using u by (intro mult_right_mono) simp_all
  then show "2 powi binade x \<le> fl x"
    unfolding f pow2_ulp(2) [of "binade x"] u_def by simp
  have "x \<le> 2 ^ 53 * u"
    using binade_bounds(2) [OF x0] assms unfolding u_def pow2_ulp(1) [of "binade x", symmetric]
    by simp
  then have "x / u \<le> of_int (2 ^ 53)" using u by (simp add: field_simps)
  then have "roundEven (x / u) \<le> roundEven (of_int (2 ^ 53))" by (rule roundEven_mono)
  then have "roundEven (x / u) \<le> 2 ^ 53" by (simp only: roundEven_of_int)
  then have "real_of_int (roundEven (x / u)) \<le> of_int (2 ^ 53)" by (simp only: of_int_le_iff)
  then have "real_of_int (roundEven (x / u)) * u \<le> of_int (2 ^ 53) * u"
    using u by (intro mult_right_mono) simp_all
  then show "fl x \<le> 2 powi (binade x + 1)"
    unfolding f pow2_ulp(1) [of "binade x"] u_def by simp
qed

lemma fl_mono_pos:
  assumes "0 < x" "x \<le> y"
  shows "fl x \<le> fl y"
proof -
  have p: "0 < (2::real) powi j" for j by (rule zero_less_power_int) simp
  from assms have x0: "x \<noteq> 0" and y0: "y \<noteq> 0" and ypos: "0 < y" by simp_all
  note bx = binade_bounds [OF x0] and bny = binade_bounds [OF y0]
  have "2 powi binade x \<le> \<bar>y\<bar>" using bx(1) assms by simp
  also have "\<dots> < 2 powi (binade y + 1)" by (rule bny(2))
  finally have "binade x < binade y + 1" by (simp only: pow2_powi_less_iff)
  then consider "binade x = binade y" | "binade x + 1 \<le> binade y" by linarith
  then show ?thesis
  proof cases
    case 1
    from assms have "x / 2 powi (binade y - 52) \<le> y / 2 powi (binade y - 52)"
      using p [of "binade y - 52"] by (simp add: divide_right_mono)
    then have "roundEven (x / 2 powi (binade y - 52)) \<le> roundEven (y / 2 powi (binade y - 52))"
      by (rule roundEven_mono)
    then have "real_of_int (roundEven (x / 2 powi (binade y - 52))) * 2 powi (binade y - 52)
        \<le> real_of_int (roundEven (y / 2 powi (binade y - 52))) * 2 powi (binade y - 52)"
      using p [of "binade y - 52"] by (intro mult_right_mono) simp_all
    then show ?thesis
      using x0 y0 1 by (simp add: fl_def)
  next
    case 2
    have "fl x \<le> 2 powi (binade x + 1)" using assms(1) by (rule fl_binade_bounds)
    also have "\<dots> \<le> 2 powi binade y"
      using 2 by (intro power_int_increasing) simp_all
    also have "\<dots> \<le> fl y" using ypos by (rule fl_binade_bounds)
    finally show ?thesis .
  qed
qed

lemma fl_zero [simp]: "fl 0 = 0"
  by (simp add: fl_def)

lemma fl_mono:
  assumes "x \<le> y"
  shows "fl x \<le> fl y"
proof -
  consider "0 < x" | "x \<le> 0" "0 \<le> y" | "y < 0" by linarith
  then show ?thesis
  proof cases
    case 1
    from 1 assms show ?thesis by (rule fl_mono_pos)
  next
    case 2
    from 2(1) have "0 \<le> fl (- x)" by (intro fl_nonneg) simp
    then have "fl x \<le> 0" by (simp add: fl_minus)
    also from 2(2) have "0 \<le> fl y" by (rule fl_nonneg)
    finally show ?thesis .
  next
    case 3
    with assms have "fl (- y) \<le> fl (- x)" by (intro fl_mono_pos) simp_all
    then show ?thesis by (simp add: fl_minus)
  qed
qed

lemma fl_error:
  assumes "x \<noteq> 0"
  shows "\<bar>fl x - x\<bar> \<le> 2 powi (binade x - 53)"
proof -
  have p: "0 < (2::real) powi j" for j by (rule zero_less_power_int) simp
  define u :: real where "u = 2 powi (binade x - 52)"
  have u: "0 < u" by (simp add: u_def p)
  have "fl x - x = (of_int (roundEven (x / u)) - x / u) * u"
    using assms u by (simp add: fl_def u_def field_simps)
  then have "\<bar>fl x - x\<bar> = \<bar>of_int (roundEven (x / u)) - x / u\<bar> * u"
    using u by (simp add: abs_mult)
  also have "\<dots> \<le> 1/2 * u"
    using u roundEven_error [of "x / u"] by (intro mult_right_mono) simp_all
  also have "\<dots> = 2 powi (binade x - 53)"
    by (simp add: u_def power_int_diff)
  finally show ?thesis .
qed

lemma fl_numeral: "(numeral n :: int) < 2 ^ 53 \<Longrightarrow> fl (numeral n) = numeral n"
  using fl_of_int [of "numeral n"] by simp

lemma fl_one [simp]: "fl 1 = 1"
  using fl_of_int [of 1] by simp

lemma binade_scale:
  assumes "x \<noteq> 0"
  shows "binade (x * 2 powi k) = binade x + k"
proof -
  have p: "0 < (2::real) powi j" for j by (rule zero_less_power_int) simp
  have xk: "x * 2 powi k \<noteq> 0" using assms p [of k] by simp
  have a: "(2::real) powi (binade x + k) = 2 powi binade x * 2 powi k"
    by (rule power_int_add) simp
  have b: "(2::real) powi (binade x + k + 1) = 2 powi (binade x + 1) * 2 powi k"
    using power_int_add [of "2::real" "binade x + 1" k] by (simp add: algebra_simps)
  have "2 powi (binade x + k) \<le> \<bar>x * 2 powi k\<bar>"
    unfolding a abs_mult using binade_bounds(1) [OF assms] p [of k]
    by (simp add: mult_right_mono)
  moreover have "\<bar>x * 2 powi k\<bar> < 2 powi (binade x + k + 1)"
    unfolding b abs_mult using binade_bounds(2) [OF assms] p [of k]
    by simp
  ultimately show ?thesis using binade_iff [OF xk, of "binade x + k"] by simp
qed

lemma fl_scale: "fl (x * 2 powi k) = fl x * 2 powi k"
proof (cases "x = 0")
  case True
  then show ?thesis by simp
next
  case False
  have p: "0 < (2::real) powi j" for j by (rule zero_less_power_int) simp
  have xk: "x * 2 powi k \<noteq> 0" using False p [of k] by simp
  have u: "(2::real) powi (binade x + k - 52) = 2 powi (binade x - 52) * 2 powi k"
    using power_int_add [of "2::real" "binade x - 52" k] by (simp add: algebra_simps)
  have "x * 2 powi k / (2 powi (binade x - 52) * 2 powi k) = x / 2 powi (binade x - 52)"
    using p [of k] by simp
  then show ?thesis
    using False xk by (simp add: fl_def binade_scale u)
qed

lemma fl_tenth: "fl (1/10) = 3602879701896397 / 36028797018963968"
proof -
  have "fl (1/10) = of_int (roundEven ((1/10) / 2 powi (-4 - 52))) * 2 powi (-4 - 52)"
    by (rule fl_eval) (simp_all add: power_int_minus)
  also have "(1/10) / (2::real) powi (-4 - 52) = 72057594037927936 / 10"
    by (simp add: power_int_minus)
  also have "roundEven (72057594037927936 / 10) = 7205759403792794"
    by (simp add: roundEven_def Let_def)
  finally show ?thesis by (simp add: power_int_minus)
qed

lemma fl_1000_tenth: "fl (1000 * fl (1/10)) = 100"
proof -
  have "fl (1000 * fl (1/10)) = of_int (roundEven (1000 * fl (1/10) / 2 powi (6 - 52))) * 2 powi (6 - 52)"
    by (rule fl_eval) (simp_all add: fl_tenth)
  also have "1000 * fl (1/10) / (2::real) powi (6 - 52) = 3602879701896397000 / 512"
    by (simp add: fl_tenth power_int_minus)
  also have "roundEven (3602879701896397000 / 512) = 7036874417766400"
    by (simp add: roundEven_def Let_def)
  finally show ?thesis by (simp add: power_int_minus)
qed

lemma fl_30000_tenth: "fl (30000 * fl (1/10)) = 3000"
proof -
  have "fl (30000 * fl (1/10)) = of_int (roundEven (30000 * fl (1/10) / 2 powi (11 - 52))) * 2 powi (11 - 52)"
    by (rule fl_eval) (simp_all add: fl_tenth)
  also have "30000 * fl (1/10) / (2::real) powi (11 - 52) = 108086391056891910000 / 16384"
    by (simp add: fl_tenth power_int_minus)
  also have "roundEven (108086391056891910000 / 16384) = 6597069766656000"
    by (simp add: roundEven_def Let_def)
  finally show ?thesis by (simp add: power_int_minus)
qed

lemma fl_error_le:
  assumes "\<bar>x\<bar> \<le> 2 powi k"
  shows "\<bar>fl x - x\<bar> \<le> 2 powi (k - 53)"
proof (cases "x = 0")
  case True
  then show ?thesis by simp
next
  case False
  have "2 powi binade x \<le> \<bar>x\<bar>" using False by (rule binade_bounds)
  with assms have "\<not> (2::real) powi k < 2 powi binade x" by simp
  then have "binade x \<le> k" by (simp only: pow2_powi_less_iff not_less)
  then have "(2::real) powi (binade x - 53) \<le> 2 powi (k - 53)"
    by (intro power_int_increasing) simp_all
  with fl_error [OF False] show ?thesis by simp
qed

lemma fl_half: "fl (1 / 2) = 1 / 2"
  using fl_exact [of 1 "- 1"] by (simp add: power_int_minus)

section \<open>Evaluation\<close>

lemmas engine_simps =
  fire_def effects_def autoStart_def startProcessing_def processNext_def initEngine_def
  addToQueue_def retryFailed_def retryFailedUpdater_def clearQueue_def unmount_def
  loadOfflineQueue_def getOfflineQueue_def idb_keys_def idb_get_def clearTimeoutRef_def
  uploadResolved_def backoffElapsed_def takeSuspended_def onSuccess_def onError_def
  onRateLimit_def setTimeout_def timerFires_def mapItem_def eligible_def MAX_RETRIES_def
  removeFromOfflineQueue_def saveToOfflineQueue_def idb_del_def Let_def
  showNat.simps STORE_PREFIX_def rateLimitWaitMs_def DELAY_BETWEEN_UPLOADS_MS_def
  exampleItem_def enqueueExample_def fl_numeral

lemma inFlightExample_eval:
  "inFlightExample =
     (initEngine [])\<lparr>queue := [exampleItem ''a'' Uploading 0],
        queueRef := [exampleItem ''a'' Uploading 0], isUploading := True,
        processingRef := True, suspended := [AwaitUpload (exampleItem ''a'' Pending 0)]\<rparr>"
  by (simp add: inFlightExample_def engine_simps)

section \<open>The effects\<close>

text \<open>
  The model runs the effects after every event, also after one that changes none of their
  dependencies. When the auto-start effect starts \<^verbatim>\<open>processNext\<close> it finds an item, so
  \<^verbatim>\<open>processingRef\<close> stays true; and running the effects twice in a row is the same as
  running them once.
\<close>

lemma processNext_starts:
  assumes "mountedRef s" "list_ex eligible (queueRef s)" "processingRef s"
  shows "processingRef (processNext rnd s)" "mountedRef (processNext rnd s)"
proof -
  from assms(2) have "find eligible (queueRef s) \<noteq> None"
    by (auto simp: find_None_iff list_ex_iff)
  then obtain nextItem where "find eligible (queueRef s) = Some nextItem" by auto
  with assms(1,3) show "processingRef (processNext rnd s)" "mountedRef (processNext rnd s)"
    by (simp_all add: processNext_def Let_def)
qed

lemma effects_idem: "effects rnd' (effects rnd s) = effects rnd s"
proof (cases "mountedRef s \<and> list_ex eligible (queue s) \<and> \<not> processingRef s \<and> \<not> isRateLimited s")
  case False
  then show ?thesis
    by (auto simp: effects_def autoStart_def Let_def)
next
  case True
  let ?s = "s\<lparr>queueRef := queue s, processingRef := True\<rparr>"
  from True have "processingRef (processNext rnd ?s)" "mountedRef (processNext rnd ?s)"
    by (simp_all add: processNext_starts)
  with True show ?thesis
    by (simp add: effects_def autoStart_def startProcessing_def Let_def)
qed

section \<open>Single-concurrency delivery\<close>

lemma mapItem_ids:
  "(\<And>q. item_id (f q) = item_id q) \<Longrightarrow> map item_id (mapItem i f q) = map item_id q"
  by (simp add: mapItem_def)

lemma mapItem_set:
  "x \<in> set (mapItem i f q) \<Longrightarrow> \<exists>y \<in> set q. x = (if item_id y = i then f y else y)"
  by (auto simp: mapItem_def)

lemma no_uploading_count: "\<forall>x \<in> set q. status x \<noteq> Uploading \<Longrightarrow> uploadingCount q = 0"
  by (simp add: uploadingCount_def)

lemma one_id_uploading_count:
  "distinct (map item_id q) \<Longrightarrow> \<forall>x \<in> set q. status x = Uploading \<longrightarrow> item_id x = i \<Longrightarrow>
   uploadingCount q \<le> 1"
proof (induction q)
  case Nil
  then show ?case by (simp add: uploadingCount_def)
next
  case (Cons a q)
  show ?case
  proof (cases "status a = Uploading")
    case True
    with Cons.prems have "item_id a = i" and "i \<notin> set (map item_id q)" by auto
    have "\<forall>x \<in> set q. status x \<noteq> Uploading"
    proof
      fix x assume x: "x \<in> set q"
      show "status x \<noteq> Uploading"
      proof
        assume "status x = Uploading"
        with Cons.prems(2) x have "item_id x = i" by simp
        with x \<open>i \<notin> set (map item_id q)\<close> show False by auto
      qed
    qed
    then have "uploadingCount q = 0" by (rule no_uploading_count)
    with True show ?thesis by (simp add: uploadingCount_def)
  next
    case False
    with Cons show ?thesis by (simp add: uploadingCount_def)
  qed
qed

lemma engineInv_queueRef [simp]: "engineInv (s\<lparr>queueRef := x\<rparr>) = engineInv s"
  by (simp add: engineInv_def)

lemma engineInv_isRateLimited [simp]: "engineInv (s\<lparr>isRateLimited := x\<rparr>) = engineInv s"
  by (simp add: engineInv_def)

lemma engineInv_idle:
  assumes "engineInv s" "mountedRef s" "suspended s = []"
  shows "\<forall>x \<in> set (queue s). status x \<noteq> Uploading"
  using assms by (auto simp: engineInv_def)

lemma processNext_inv:
  assumes "mountedRef s" "suspended s = []" "timers s = []" "distinct (map item_id (queue s))"
    and "\<forall>x \<in> set (queue s). status x \<noteq> Uploading" and "processingRef s"
  shows "engineInv (processNext rnd s)"
proof (cases "find eligible (queueRef s)")
  case None
  with assms show ?thesis
    by (simp add: processNext_def engineInv_def no_uploading_count)
next
  case (Some nextItem)
  let ?q = "mapItem (item_id nextItem) (\<lambda>q. q\<lparr>status := Uploading\<rparr>) (queue s)"
  have ids: "map item_id ?q = map item_id (queue s)"
    by (simp add: mapItem_ids)
  have up: "\<forall>x \<in> set ?q. status x = Uploading \<longrightarrow> item_id x = item_id nextItem"
    using assms(5) by (auto dest!: mapItem_set split: if_splits)
  have cnt: "uploadingCount ?q \<le> 1"
    using assms(4) up by (intro one_id_uploading_count [where i = "item_id nextItem"]) (simp_all add: ids)
  from Some assms(1-4,6) ids up cnt show ?thesis
    by (simp add: processNext_def engineInv_def Let_def nextItemOf_def)
qed

lemma effects_inv:
  assumes "engineInv s"
  shows "engineInv (effects rnd s)"
proof (cases "mountedRef s \<and> list_ex eligible (queue s) \<and> \<not> processingRef s \<and> \<not> isRateLimited s")
  case False
  with assms show ?thesis
    by (auto simp: effects_def autoStart_def Let_def)
next
  case True
  let ?s = "s\<lparr>queueRef := queue s, processingRef := True\<rparr>"
  from True assms have idle: "suspended s = []" "timers s = []"
    by (simp_all add: engineInv_def)
  with True assms have "\<forall>x \<in> set (queue s). status x \<noteq> Uploading"
    by (intro engineInv_idle) simp_all
  with True assms idle have "engineInv (processNext rnd ?s)"
    by (intro processNext_inv) (simp_all add: engineInv_def)
  with True show ?thesis
    by (simp add: effects_def autoStart_def startProcessing_def Let_def)
qed

lemma addToQueue_inv:
  assumes "engineInv s" "newId \<notin> set (map item_id (queue s))"
  shows "engineInv (addToQueue newId fname img meta s)"
  using assms by (auto simp: engineInv_def addToQueue_def Let_def uploadingCount_def)

lemma retryFailedUpdater_ids: "map item_id (retryFailedUpdater q) = map item_id q"
  by (simp add: retryFailedUpdater_def)

lemma retryFailedUpdater_uploading:
  "x \<in> set (retryFailedUpdater q) \<Longrightarrow> status x = Uploading \<Longrightarrow> x \<in> set q"
  by (auto simp: retryFailedUpdater_def split: if_splits)

lemma retryFailedUpdater_count: "uploadingCount (retryFailedUpdater q) = uploadingCount q"
  by (induction q) (simp_all add: retryFailedUpdater_def uploadingCount_def)

lemma retryFailed_inv:
  assumes "engineInv s"
  shows "engineInv (retryFailed s)"
  using assms
  by (auto simp: engineInv_def retryFailed_def retryFailedUpdater_ids retryFailedUpdater_count
      dest: retryFailedUpdater_uploading)

lemma loadOfflineQueue_inv:
  assumes "engineInv s" "distinct (map item_id (queue s @ getOfflineQueue (idb s)))"
    and "\<forall>c \<in> set (getOfflineQueue (idb s)). status c \<noteq> Uploading"
  shows "engineInv (loadOfflineQueue s)"
proof -
  from assms(3) have "filter (\<lambda>item. status item = Uploading) (getOfflineQueue (idb s)) = []"
    by (simp add: filter_empty_conv)
  with assms show ?thesis
    by (auto simp: engineInv_def loadOfflineQueue_def Let_def uploadingCount_def)
qed

lemma clearTimeoutRef_fields [simp]:
  "queue (clearTimeoutRef r s) = queue s" "suspended (clearTimeoutRef r s) = suspended s"
  "mountedRef (clearTimeoutRef r s) = mountedRef s"
  "processingRef (clearTimeoutRef r s) = processingRef s"
  by (simp_all add: clearTimeoutRef_def split: option.splits)

lemma clearTimeoutRef_timers:
  "length (timers (clearTimeoutRef r s)) \<le> length (timers s)"
  by (simp add: clearTimeoutRef_def split: option.splits)

lemma clearTimeoutRef_timers_Nil: "timers s = [] \<Longrightarrow> timers (clearTimeoutRef r s) = []"
  by (simp add: clearTimeoutRef_def split: option.splits)

lemma unmount_inv:
  assumes "engineInv s"
  shows "engineInv (unmount s)"
proof -
  let ?s1 = "clearTimeoutRef (nextTimerRef s) (s\<lparr>mountedRef := False\<rparr>)"
  have "length (timers (unmount s)) \<le> length (timers ?s1)"
    unfolding unmount_def by (rule clearTimeoutRef_timers)
  also have "\<dots> \<le> length (timers s)"
    using clearTimeoutRef_timers [of "nextTimerRef s" "s\<lparr>mountedRef := False\<rparr>"] by simp
  finally have len: "length (timers (unmount s)) \<le> length (timers s)" .
  have nil: "timers s = [] \<Longrightarrow> timers (unmount s) = []"
    unfolding unmount_def by (intro clearTimeoutRef_timers_Nil) simp
  have sub: "set (timers (unmount s)) \<subseteq> set (timers s)"
    by (auto simp: unmount_def clearTimeoutRef_def split: option.splits)
  have refs: "nextTimerRef (unmount s) = nextTimerRef s"
    "rateLimitTimerRef (unmount s) = rateLimitTimerRef s"
    by (simp_all add: unmount_def clearTimeoutRef_def split: option.splits)
  have rest: "queue (unmount s) = queue s" "suspended (unmount s) = suspended s"
    "processingRef (unmount s) = processingRef s" "\<not> mountedRef (unmount s)"
    by (simp_all add: unmount_def)
  from assms len nil sub show ?thesis
    by (auto simp: engineInv_def refs rest)
qed

lemma clearQueue_idle_inv:
  assumes "engineInv s" "suspended s = []"
  shows "engineInv (clearQueue s)"
proof -
  have "timers (clearQueue s) = []"
  proof (cases "timers s")
    case Nil
    then show ?thesis
      by (simp add: clearQueue_def clearTimeoutRef_def split: option.splits)
  next
    case (Cons t ts)
    with assms(1) have ts: "timers s = [t]" by (simp add: engineInv_def)
    with assms(1) have "nextTimerRef s = Some (fst t) \<or> rateLimitTimerRef s = Some (fst t)"
      by (simp add: engineInv_def)
    with ts show ?thesis
      by (auto simp: clearQueue_def clearTimeoutRef_def split: option.splits)
  qed
  moreover have "queue (clearQueue s) = []" "suspended (clearQueue s) = suspended s"
    "\<not> processingRef (clearQueue s)"
    by (simp_all add: clearQueue_def)
  ultimately show ?thesis
    using assms(2) by (simp add: engineInv_def uploadingCount_def)
qed


lemma single_suspension:
  assumes "engineInv s" "i < length (suspended s)"
  shows "i = 0" "suspended s = [suspended s ! 0]" "timers s = []" "processingRef s"
proof -
  from assms(1) have "length (suspended s) + length (timers s) \<le> 1"
    by (simp add: engineInv_def)
  with assms(2) have len: "length (suspended s) = 1" and t: "length (timers s) = 0"
    by arith+
  from len assms(2) show "i = 0" by simp
  from len show "suspended s = [suspended s ! 0]"
    by (cases "suspended s") simp_all
  from t show "timers s = []" by simp
  from assms show "processingRef s" by (auto simp: engineInv_def)
qed

lemma backoffElapsed_inv:
  assumes "engineInv s"
  shows "engineInv (backoffElapsed i s)"
proof (cases "i < length (suspended s)")
  case False
  with assms show ?thesis by (simp add: backoffElapsed_def)
next
  case True
  note one = single_suspension [OF assms True]
  show ?thesis
  proof (cases "suspended s ! 0")
    case (AwaitUpload nextItem)
    with assms True one(1) show ?thesis by (simp add: backoffElapsed_def)
  next
    case (AwaitBackoff nextItem delay)
    with one(2) have susp: "suspended s = [AwaitBackoff nextItem delay]" by simp
    with assms one(1,3,4) show ?thesis
      by (simp add: backoffElapsed_def takeSuspended_def engineInv_def Let_def nextItemOf_def)
  qed
qed

lemma resolved_queue_inv:
  assumes "engineInv s" "mountedRef s" "suspended s = [AwaitUpload nextItem]"
    and "\<And>q. status (f q) \<noteq> Uploading" "\<And>q. item_id (f q) = item_id q"
  shows "distinct (map item_id (mapItem (item_id nextItem) f (queue s)))"
    and "\<forall>x \<in> set (mapItem (item_id nextItem) f (queue s)). status x \<noteq> Uploading"
    and "uploadingCount (mapItem (item_id nextItem) f (queue s)) = 0"
proof -
  from assms(1) show "distinct (map item_id (mapItem (item_id nextItem) f (queue s)))"
    by (simp add: mapItem_ids assms(5) engineInv_def)
  from assms(1-3) have old: "\<forall>y \<in> set (queue s). status y = Uploading \<longrightarrow> item_id y = item_id nextItem"
    by (auto simp: engineInv_def nextItemOf_def)
  show none: "\<forall>x \<in> set (mapItem (item_id nextItem) f (queue s)). status x \<noteq> Uploading"
  proof
    fix x assume "x \<in> set (mapItem (item_id nextItem) f (queue s))"
    then obtain y where y: "y \<in> set (queue s)"
      and x: "x = (if item_id y = item_id nextItem then f y else y)"
      by (auto dest: mapItem_set)
    with old assms(4) show "status x \<noteq> Uploading" by (cases "item_id y = item_id nextItem") auto
  qed
  then show "uploadingCount (mapItem (item_id nextItem) f (queue s)) = 0"
    by (rule no_uploading_count)
qed

lemma onSuccess_inv:
  assumes "engineInv s" "mountedRef s" "suspended s = [AwaitUpload nextItem]"
  shows "engineInv (onSuccess nextItem (takeSuspended 0 s))"
proof -
  note q = resolved_queue_inv [OF assms, where f = "\<lambda>q. q\<lparr>status := Success\<rparr>", simplified]
  from assms have "timers s = []" "processingRef s" by (auto simp: engineInv_def)
  with assms(2,3) q show ?thesis
    by (simp add: onSuccess_def takeSuspended_def setTimeout_def engineInv_def Let_def)
qed

lemma onRateLimit_inv:
  assumes "engineInv s" "mountedRef s" "suspended s = [AwaitUpload nextItem]"
  shows "engineInv (onRateLimit nextItem rnd (takeSuspended 0 s))"
proof -
  note q = resolved_queue_inv [OF assms, where f = "\<lambda>q. q\<lparr>status := Pending\<rparr>", simplified]
  from assms have "timers s = []" "processingRef s" by (auto simp: engineInv_def)
  with assms(2,3) q show ?thesis
    by (simp add: onRateLimit_def takeSuspended_def setTimeout_def engineInv_def Let_def)
qed

lemma onError_inv:
  assumes "engineInv s" "mountedRef s" "suspended s = [AwaitUpload nextItem]"
  shows "engineInv (onError nextItem (takeSuspended 0 s))"
proof -
  define f :: "captureItem \<Rightarrow> captureItem" where "f = (\<lambda>q. q\<lparr>status := (if retryCount nextItem + 1 \<ge> MAX_RETRIES then Error else Pending),
      retryCount := retryCount nextItem + 1,
      errorMessage := Some (if retryCount nextItem + 1 \<ge> MAX_RETRIES then ''Max retries exceeded''
         else ''Upload failed, retry '' @ showNat (retryCount nextItem + 1) @ ''/''
              @ showNat MAX_RETRIES)\<rparr>)"
  have f: "\<And>q. status (f q) \<noteq> Uploading" "\<And>q. item_id (f q) = item_id q"
    by (simp_all add: f_def)
  note q = resolved_queue_inv [OF assms f]
  let ?s' = "onError nextItem (takeSuspended 0 s)"
  have qe: "queue ?s' = mapItem (item_id nextItem) f (queue s)"
    by (simp add: onError_def f_def Let_def setTimeout_def takeSuspended_def)
  from assms have "timers s = []" "processingRef s" by (auto simp: engineInv_def)
  with assms(2,3) have rest: "suspended ?s' = []" "length (timers ?s') = 1" "processingRef ?s'"
    "\<forall>t \<in> set (timers ?s'). nextTimerRef ?s' = Some (fst t)"
    by (simp_all add: onError_def Let_def setTimeout_def takeSuspended_def)
  from q rest show ?thesis
    by (simp add: engineInv_def qe)
qed

lemma uploadResolved_inv:
  assumes "engineInv s"
  shows "engineInv (uploadResolved i result rnd s)"
proof (cases "i < length (suspended s)")
  case False
  with assms show ?thesis by (simp add: uploadResolved_def)
next
  case True
  note one = single_suspension [OF assms True]
  show ?thesis
  proof (cases "suspended s ! 0")
    case (AwaitBackoff nextItem delay)
    with assms True one(1) show ?thesis by (simp add: uploadResolved_def)
  next
    case (AwaitUpload nextItem)
    with one(2) have susp: "suspended s = [AwaitUpload nextItem]" by simp
    show ?thesis
    proof (cases "mountedRef s")
      case False
      with assms susp one(1,3) show ?thesis
        by (simp add: uploadResolved_def takeSuspended_def engineInv_def Let_def)
    next
      case True
      have m: "mountedRef (takeSuspended 0 s)" using True by (simp add: takeSuspended_def)
      from onSuccess_inv [OF assms True susp] onRateLimit_inv [OF assms True susp]
        onError_inv [OF assms True susp] susp one(1) m
      show ?thesis
        by (cases result) (simp_all add: uploadResolved_def Let_def)
    qed
  qed
qed

lemma timerFires_inv:
  assumes "engineInv s"
  shows "engineInv (timerFires h rnd s)"
proof (cases "find (\<lambda>t. fst t = h) (timers s)")
  case None
  with assms show ?thesis by (simp add: timerFires_def)
next
  case (Some t)
  then have mem: "t \<in> set (timers s)" and h: "fst t = h"
    by (auto simp: find_Some_iff)
  from mem assms have "length (timers s) = 1" and susp: "suspended s = []"
    by (cases "timers s"; auto simp: engineInv_def)+
  with mem have ts: "timers s = [t]" by (cases "timers s") auto
  let ?s1 = "s\<lparr>timers := filter (\<lambda>t. fst t \<noteq> h) (timers s)\<rparr>"
  have t1: "timers ?s1 = []" using ts h by simp
  from assms ts have p: "processingRef s" by (auto simp: engineInv_def)
  show ?thesis
  proof (cases "mountedRef s")
    case False
    with assms t1 susp have "engineInv ?s1" by (simp add: engineInv_def)
    with False Some show ?thesis
      by (simp add: timerFires_def Let_def split: timerCallback.splits)
  next
    case True
    from assms True susp have idle: "\<forall>x \<in> set (queue s). status x \<noteq> Uploading"
      by (rule engineInv_idle)
    from assms have d: "distinct (map item_id (queue s))" by (simp add: engineInv_def)
    have a: "engineInv (processNext rnd ?s1)"
      using True susp t1 d idle p by (intro processNext_inv) simp_all
    have b: "engineInv (processNext rnd (?s1\<lparr>isRateLimited := False\<rparr>))"
      using True susp t1 d idle p by (intro processNext_inv) simp_all
    from a b True Some show ?thesis
      by (simp add: timerFires_def Let_def split: timerCallback.splits)
  qed
qed

lemma initEngine_inv: "engineInv (initEngine db)"
  by (simp add: engineInv_def initEngine_def uploadingCount_def)

lemma reachable_inv: "reachable s \<Longrightarrow> engineInv s"
proof (induction rule: reachable.induct)
  case (start db)
  show ?case by (rule initEngine_inv)
next
  case (rehydrate s rnd)
  then have "\<forall>c \<in> set (getOfflineQueue (idb s)). status c \<noteq> Uploading" by auto
  with rehydrate show ?case by (simp add: fire_def effects_inv loadOfflineQueue_inv)
next
  case (enqueue s newId rnd fname img meta)
  then show ?case by (simp add: fire_def effects_inv addToQueue_inv)
next
  case (retry s rnd)
  then show ?case by (simp add: fire_def effects_inv retryFailed_inv)
next
  case (backoff_expiry s rnd i)
  then show ?case by (simp add: fire_def effects_inv backoffElapsed_inv)
next
  case (tick_completion s rnd i result)
  then show ?case by (simp add: fire_def effects_inv uploadResolved_inv)
next
  case (timer_expiry s rnd h)
  then show ?case by (simp add: fire_def effects_inv timerFires_inv)
next
  case (teardown s rnd)
  then show ?case by (simp add: fire_def effects_inv unmount_inv)
next
  case (clear_idle s rnd)
  then show ?case by (simp add: fire_def effects_inv clearQueue_idle_inv)
qed

text \<open>
  Claim C1: in every state that the hook reaches by enqueues, completions of an attempt
  and expiries of a timer, in any order (and by \<^verbatim>\<open>retryFailed\<close>, the rehydration, the
  unmount, and \<^verbatim>\<open>clearQueue\<close> while no attempt is in flight), at most one item of the
  queue has the status \<^verbatim>\<open>uploading\<close>.
\<close>

theorem at_most_one_uploading:
  "reachable s \<Longrightarrow> length (filter (\<lambda>item. status item = Uploading) (queue s)) \<le> 1"
  using reachable_inv [of s] by (simp add: engineInv_def uploadingCount_def)

theorem at_most_one_uploading_witness:
  "reachable (run [enqueueExample ''a'', enqueueExample ''b''] (initEngine []))
   \<and> length (filter (\<lambda>item. status item = Uploading)
        (queue (run [enqueueExample ''a'', enqueueExample ''b''] (initEngine [])))) \<le> 1
   \<and> map status (queue (run [enqueueExample ''a'', enqueueExample ''b''] (initEngine [])))
        = [Uploading, Pending]"
proof -
  let ?s1 = "fire 0 (AddToQueue ''a'' ''f.jpg'' ''img'' exampleMetadata) (initEngine [])"
  let ?s2 = "fire 0 (AddToQueue ''b'' ''f.jpg'' ''img'' exampleMetadata) ?s1"
  have r1: "reachable ?s1"
    by (rule reachable.enqueue [OF reachable.start]) (simp add: initEngine_def)
  have "''b'' \<notin> set (map item_id (queue ?s1))"
    by (simp add: engine_simps)
  with r1 have r2: "reachable ?s2" by (rule reachable.enqueue)
  have e: "run [enqueueExample ''a'', enqueueExample ''b''] (initEngine []) = ?s2"
    by (simp add: enqueueExample_def)
  have "map status (queue ?s2) = [Uploading, Pending]"
    by (simp add: engine_simps)
  with r2 at_most_one_uploading [OF r2] show ?thesis
    unfolding e by simp
qed

section \<open>retryFailed\<close>

lemma retryFailedUpdater_idem: "retryFailedUpdater (retryFailedUpdater q) = retryFailedUpdater q"
  by (induction q) (simp_all add: retryFailedUpdater_def)

text \<open>
  Claim C8: \<^verbatim>\<open>retryFailed\<close> resets the items that are \<^verbatim>\<open>error\<close> with at least five
  retries to \<^verbatim>\<open>pending\<close> with no retry, leaves every other item as it is, and is
  idempotent.
\<close>

theorem retryFailed_resets_exhausted:
  "length (queue (retryFailed s)) = length (queue s)
   \<and> (\<forall>i < length (queue s).
        (status (queue s ! i) = Error \<and> retryCount (queue s ! i) \<ge> 5 \<longrightarrow>
           queue (retryFailed s) ! i = (queue s ! i)\<lparr>status := Pending, retryCount := 0\<rparr>) \<and>
        (\<not> (status (queue s ! i) = Error \<and> retryCount (queue s ! i) \<ge> 5) \<longrightarrow>
           queue (retryFailed s) ! i = queue s ! i))
   \<and> retryFailed (retryFailed s) = retryFailed s"
  by (simp add: retryFailed_def retryFailedUpdater_idem)
     (simp add: retryFailedUpdater_def MAX_RETRIES_def)

theorem retryFailed_resets_exhausted_witness:
  "queue (retryFailed ((initEngine [])\<lparr>queue := [exampleItem ''a'' Error 5,
       exampleItem ''b'' Error 2, exampleItem ''c'' Pending 1]\<rparr>))
     = [exampleItem ''a'' Pending 0, exampleItem ''b'' Error 2, exampleItem ''c'' Pending 1]
   \<and> retryFailed (retryFailed ((initEngine [])\<lparr>queue := [exampleItem ''a'' Error 5,
       exampleItem ''b'' Error 2, exampleItem ''c'' Pending 1]\<rparr>))
     = retryFailed ((initEngine [])\<lparr>queue := [exampleItem ''a'' Error 5,
       exampleItem ''b'' Error 2, exampleItem ''c'' Pending 1]\<rparr>)"
proof -
  define S where "S = (initEngine [])\<lparr>queue := [exampleItem ''a'' Error 5,
       exampleItem ''b'' Error 2, exampleItem ''c'' Pending 1]\<rparr>"
  note t = retryFailed_resets_exhausted [of S]
  have q: "queue S = [exampleItem ''a'' Error 5, exampleItem ''b'' Error 2,
      exampleItem ''c'' Pending 1]"
    by (simp add: S_def)
  from t have len: "length (queue (retryFailed S)) = 3" by (simp add: q)
  from t [THEN conjunct2, THEN conjunct1, rule_format, where i = 0]
  have e0: "queue (retryFailed S) ! 0 = exampleItem ''a'' Pending 0"
    by (simp add: q exampleItem_def)
  from t [THEN conjunct2, THEN conjunct1, rule_format, where i = 1]
  have e1: "queue (retryFailed S) ! 1 = exampleItem ''b'' Error 2"
    by (simp add: q exampleItem_def)
  from t [THEN conjunct2, THEN conjunct1, rule_format, where i = 2]
  have e2: "queue (retryFailed S) ! 2 = exampleItem ''c'' Pending 1"
    by (simp add: q exampleItem_def)
  have "queue (retryFailed S)
      = [exampleItem ''a'' Pending 0, exampleItem ''b'' Error 2, exampleItem ''c'' Pending 1]"
    using len e0 e1 e2 by (intro nth_equalityI) (auto simp: less_Suc_eq numeral_3_eq_3 numeral_2_eq_2)
  moreover from t have "retryFailed (retryFailed S) = retryFailed S" by simp
  ultimately show ?thesis unfolding S_def by simp
qed

section \<open>uploadProgress\<close>

lemma buckets_partition:
  "errorsExhausted q \<Longrightarrow>
   length (filter (\<lambda>item. status item = Success) q)
   + length (filter (\<lambda>item. status item = Error \<and> retryCount item \<ge> MAX_RETRIES) q)
   + length (filter (\<lambda>item. status item = Pending \<or> status item = Uploading) q) = length q"
proof (induction q)
  case Nil
  then show ?case by simp
next
  case (Cons a q)
  then have "errorsExhausted q" and a: "status a = Error \<longrightarrow> retryCount a \<ge> MAX_RETRIES"
    by (simp_all add: errorsExhausted_def)
  with Cons.IH show ?case
    by (cases "status a") simp_all
qed

text \<open>
  Claim C9: \<^verbatim>\<open>uploadProgress\<close> counts the items by their current status: the successes,
  the items that are \<^verbatim>\<open>pending\<close> or \<^verbatim>\<open>uploading\<close>, and the items that are \<^verbatim>\<open>error\<close> with
  at least five retries. When every \<^verbatim>\<open>error\<close> item has used up its retries, the last
  count is the number of \<^verbatim>\<open>error\<close> items and the three counts add up to the length of
  the queue.
\<close>

theorem uploadProgress_counts:
  "success (uploadProgress q) = length (filter (\<lambda>item. status item = Success) q)
   \<and> pending (uploadProgress q) =
       length (filter (\<lambda>item. status item = Pending \<or> status item = Uploading) q)
   \<and> failed (uploadProgress q) =
       length (filter (\<lambda>item. status item = Error \<and> retryCount item \<ge> 5) q)
   \<and> (errorsExhausted q \<longrightarrow>
        failed (uploadProgress q) = length (filter (\<lambda>item. status item = Error) q) \<and>
        success (uploadProgress q) + failed (uploadProgress q) + pending (uploadProgress q)
          = length q)"
proof -
  have "errorsExhausted q \<Longrightarrow>
        filter (\<lambda>item. status item = Error \<and> retryCount item \<ge> MAX_RETRIES) q
        = filter (\<lambda>item. status item = Error) q"
    by (rule filter_cong) (auto simp: errorsExhausted_def)
  then show ?thesis
    using buckets_partition [of q] by (auto simp: uploadProgress_def MAX_RETRIES_def)
qed

theorem uploadProgress_counts_witness:
  "errorsExhausted [exampleItem ''a'' Success 0, exampleItem ''b'' Error 5,
      exampleItem ''c'' Pending 1, exampleItem ''d'' Uploading 0]
   \<and> uploadProgress [exampleItem ''a'' Success 0, exampleItem ''b'' Error 5,
      exampleItem ''c'' Pending 1, exampleItem ''d'' Uploading 0]
     = \<lparr>success = 1, failed = 1, pending = 2\<rparr>"
proof -
  define Q where "Q = [exampleItem ''a'' Success 0, exampleItem ''b'' Error 5,
      exampleItem ''c'' Pending 1, exampleItem ''d'' Uploading 0]"
  have e: "errorsExhausted Q"
    by (simp add: Q_def errorsExhausted_def exampleItem_def MAX_RETRIES_def)
  from uploadProgress_counts [of Q] e
  have "success (uploadProgress Q) = 1" "pending (uploadProgress Q) = 2"
    "failed (uploadProgress Q) = 1"
    by (simp_all add: Q_def exampleItem_def)
  then have "uploadProgress Q = \<lparr>success = 1, failed = 1, pending = 2\<rparr>"
    by (cases "uploadProgress Q") simp
  with e show ?thesis unfolding Q_def by simp
qed

section \<open>The backoff delay\<close>

lemma cappedDelay_cases:
  "(attempt \<le> 4 \<and> cappedDelay attempt = 1000 * 2 ^ attempt) \<or>
   (5 \<le> attempt \<and> cappedDelay attempt = 30000)"
proof (cases "attempt \<le> 4")
  case True
  then have "(2::real) ^ attempt \<le> 2 ^ 4" by (intro power_increasing) simp_all
  with True show ?thesis by (simp add: cappedDelay_def)
next
  case False
  then have "(2::real) ^ 5 \<le> 2 ^ attempt" by (intro power_increasing) simp_all
  with False show ?thesis by (simp add: cappedDelay_def)
qed

lemma cappedDelay_bounds: "1000 \<le> cappedDelay a" "cappedDelay a \<le> 30000"
  by (simp_all add: cappedDelay_def)

lemma cappedDelay_mono: "a \<le> b \<Longrightarrow> cappedDelay a \<le> cappedDelay b"
  unfolding cappedDelay_def by (intro min.mono mult_left_mono power_increasing) simp_all

lemma fl_capped:
  assumes "\<bar>c\<bar> \<le> 1000"
  shows "fl (of_int c * (cappedDelay a / 10)) = of_int c * (cappedDelay a / 10)"
proof -
  from cappedDelay_cases [of a] show ?thesis
  proof (elim disjE conjE)
    assume d: "cappedDelay a = 1000 * 2 ^ a"
    have eq: "of_int c * (cappedDelay a / 10) = of_int (c * 100) * 2 powi (int a)"
      by (simp add: d)
    from assms have "\<bar>c * 100\<bar> < 2 ^ 53" by (simp add: abs_mult)
    then show ?thesis unfolding eq by (rule fl_exact)
  next
    assume d: "cappedDelay a = 30000"
    have eq: "of_int c * (cappedDelay a / 10) = of_int (c * 3000) * 2 powi 0"
      by (simp add: d)
    from assms have "\<bar>c * 3000\<bar> < 2 ^ 53" by (simp add: abs_mult)
    then show ?thesis unfolding eq by (rule fl_exact)
  qed
qed

lemma capped_int: "\<exists>n::int. of_int c * (cappedDelay a / 10) = of_int n"
proof -
  from cappedDelay_cases [of a] show ?thesis
  proof (elim disjE conjE)
    assume d: "cappedDelay a = 1000 * 2 ^ a"
    have "of_int c * (cappedDelay a / 10) = of_int (c * 100 * 2 ^ a)"
      by (simp add: d)
    then show ?thesis ..
  next
    assume d: "cappedDelay a = 30000"
    have "of_int c * (cappedDelay a / 10) = of_int (c * 3000)"
      by (simp add: d)
    then show ?thesis ..
  qed
qed

lemma fl_cappedDelay: "fl (cappedDelay a) = cappedDelay a"
  using fl_capped [of 10 a] by simp

lemma fl_cappedDelay_tenth: "fl (cappedDelay a * fl (1/10)) = cappedDelay a / 10"
proof -
  from cappedDelay_cases [of a] show ?thesis
  proof (elim disjE conjE)
    assume d: "cappedDelay a = 1000 * 2 ^ a"
    have "fl (cappedDelay a * fl (1/10)) = fl (1000 * fl (1/10) * 2 powi (int a))"
      by (simp add: d mult_ac)
    also have "\<dots> = 100 * 2 powi (int a)"
      by (simp only: fl_scale fl_1000_tenth)
    finally show ?thesis by (simp add: d)
  next
    assume d: "cappedDelay a = 30000"
    then show ?thesis by (simp add: fl_30000_tenth)
  qed
qed

lemma fl_base_power: "fl (1000 * 2 ^ attempt) = 1000 * 2 ^ attempt"
  using fl_exact [of 1000 "int attempt"] by simp

text \<open>The factor \<^verbatim>\<open>Math.random() * 2 - 1\<close> of the jitter.\<close>

lemma jitter_factor_bounds:
  assumes "0 \<le> rnd" "rnd < 1"
  shows "- 1 \<le> fl (fl (rnd * 2) - 1)" "fl (fl (rnd * 2) - 1) \<le> 1"
proof -
  have "fl 0 \<le> fl (rnd * 2)" using assms by (intro fl_mono) simp
  then have lo: "0 \<le> fl (rnd * 2)" by simp
  have "fl (rnd * 2) \<le> fl 2" using assms by (intro fl_mono) simp
  then have hi: "fl (rnd * 2) \<le> 2" by (simp add: fl_numeral)
  have "fl (- 1) \<le> fl (fl (rnd * 2) - 1)" using lo by (intro fl_mono) simp
  then show "- 1 \<le> fl (fl (rnd * 2) - 1)" by (simp add: fl_minus)
  have "fl (fl (rnd * 2) - 1) \<le> fl 1" using hi by (intro fl_mono) simp
  then show "fl (fl (rnd * 2) - 1) \<le> 1" by simp
qed

lemma getBackoffDelay_eq:
  "getBackoffDelay attempt 1000 30000 rnd
     = \<lfloor>fl (cappedDelay attempt + fl (cappedDelay attempt / 10 * fl (fl (rnd * 2) - 1)))\<rfloor>"
proof -
  have "getBackoffDelay attempt 1000 30000 rnd
      = \<lfloor>fl (cappedDelay attempt
           + fl (fl (cappedDelay attempt * fl (1 / 10)) * fl (fl (rnd * 2) - 1)))\<rfloor>"
    by (simp only: getBackoffDelay_def Let_def fl_base_power cappedDelay_def)
  then show ?thesis by (simp only: fl_cappedDelay_tenth)
qed

lemma backoff_jitter_bounds:
  assumes "0 \<le> rnd" "rnd < 1"
  shows "\<bar>fl (cappedDelay attempt / 10 * fl (fl (rnd * 2) - 1))\<bar> \<le> cappedDelay attempt / 10"
proof -
  define t where "t = fl (fl (rnd * 2) - 1)"
  define d where "d = cappedDelay attempt / 10"
  have t: "- 1 \<le> t" "t \<le> 1" using jitter_factor_bounds [OF assms] by (simp_all add: t_def)
  have d: "0 \<le> d" using cappedDelay_bounds [of attempt] by (simp add: d_def)
  have e: "fl d = d" "fl (- d) = - d"
    using fl_capped [of 1 attempt] by (simp_all add: d_def fl_minus)
  have "d * t \<le> d * 1" using t d by (intro mult_left_mono) simp_all
  then have "fl (d * t) \<le> fl d" by (intro fl_mono) simp
  moreover have "d * (- 1) \<le> d * t" using t d by (intro mult_left_mono) simp_all
  then have "fl (- d) \<le> fl (d * t)" by (intro fl_mono) simp
  ultimately show ?thesis
    unfolding e t_def [symmetric] d_def [symmetric] by (simp add: abs_le_iff)
qed

lemma getBackoffDelay_bounds:
  assumes "0 \<le> rnd" "rnd < 1"
  shows "9 * cappedDelay attempt / 10 \<le> real_of_int (getBackoffDelay attempt 1000 30000 rnd)"
    and "real_of_int (getBackoffDelay attempt 1000 30000 rnd) \<le> 11 * cappedDelay attempt / 10"
proof -
  define j where "j = fl (cappedDelay attempt / 10 * fl (fl (rnd * 2) - 1))"
  define d where "d = cappedDelay attempt"
  have j: "- (d / 10) \<le> j" "j \<le> d / 10"
    using backoff_jitter_bounds [OF assms, of attempt] by (simp_all add: j_def d_def abs_le_iff)
  have e: "fl (9 * d / 10) = 9 * d / 10" "fl (11 * d / 10) = 11 * d / 10"
    using fl_capped [of 9 attempt] fl_capped [of 11 attempt] by (simp_all add: d_def)
  have g: "getBackoffDelay attempt 1000 30000 rnd = \<lfloor>fl (d + j)\<rfloor>"
    by (simp add: getBackoffDelay_eq d_def j_def)
  from capped_int [of 9 attempt] obtain n :: int where n: "9 * d / 10 = of_int n"
    by (auto simp: d_def)
  have "fl (9 * d / 10) \<le> fl (d + j)" using j by (intro fl_mono) simp
  then have "9 * d / 10 \<le> fl (d + j)" by (simp only: e)
  then have "of_int n \<le> fl (d + j)" by (simp only: n)
  then have "n \<le> \<lfloor>fl (d + j)\<rfloor>" by (simp only: le_floor_iff)
  then have "real_of_int n \<le> real_of_int \<lfloor>fl (d + j)\<rfloor>" by (simp only: of_int_le_iff)
  then show "9 * cappedDelay attempt / 10 \<le> real_of_int (getBackoffDelay attempt 1000 30000 rnd)"
    unfolding g d_def [symmetric] n .
  have "fl (d + j) \<le> fl (11 * d / 10)" using j by (intro fl_mono) simp
  then have "fl (d + j) \<le> 11 * d / 10" by (simp only: e)
  then show "real_of_int (getBackoffDelay attempt 1000 30000 rnd) \<le> 11 * cappedDelay attempt / 10"
    unfolding g d_def [symmetric] using of_int_floor_le [of "fl (d + j)"] by linarith
qed


lemma cappedDelay_gap:
  assumes "a \<le> b" "cappedDelay a \<noteq> cappedDelay b"
  shows "11 * cappedDelay a \<le> 9 * cappedDelay b"
proof -
  from assms(2) cappedDelay_cases [of a] cappedDelay_cases [of b] assms(1)
  have a4: "a \<le> 4" and da: "cappedDelay a = 1000 * 2 ^ a" by auto
  from assms have ab: "a < b" by (cases "a = b") auto
  from a4 have p: "(2::real) ^ a \<le> 2 ^ 4" by (intro power_increasing) simp_all
  from cappedDelay_cases [of b] show ?thesis
  proof (elim disjE conjE)
    assume db: "cappedDelay b = 1000 * 2 ^ b"
    from ab have "(2::real) ^ Suc a \<le> 2 ^ b" by (intro power_increasing) simp_all
    then have "2 * (2::real) ^ a \<le> 2 ^ b" by simp
    moreover have "0 \<le> (2::real) ^ a" by simp
    ultimately have "11 * (2::real) ^ a \<le> 9 * 2 ^ b" by linarith
    then show ?thesis by (simp add: da db)
  next
    assume "cappedDelay b = 30000"
    with p show ?thesis by (simp add: da)
  qed
qed

lemma getBackoffDelay_mono:
  assumes "0 \<le> rnd" "rnd < 1" "a \<le> b"
  shows "getBackoffDelay a 1000 30000 rnd \<le> getBackoffDelay b 1000 30000 rnd"
proof (cases "cappedDelay a = cappedDelay b")
  case True
  then show ?thesis by (simp add: getBackoffDelay_eq)
next
  case False
  note g = cappedDelay_gap [OF assms(3) False]
  have "real_of_int (getBackoffDelay a 1000 30000 rnd) \<le> 11 * cappedDelay a / 10"
    using assms(1,2) by (rule getBackoffDelay_bounds)
  also have "\<dots> \<le> 9 * cappedDelay b / 10" using g by simp
  also have "\<dots> \<le> real_of_int (getBackoffDelay b 1000 30000 rnd)"
    using assms(1,2) by (rule getBackoffDelay_bounds)
  finally show ?thesis by simp
qed

lemma expectedDelay_mono:
  assumes "a \<le> b"
  shows "expectedDelay N a \<le> expectedDelay N b"
proof (cases "N = 0")
  case True
  then show ?thesis by (simp add: expectedDelay_def)
next
  case False
  have "getBackoffDelay a 1000 30000 (real k / real N) \<le> getBackoffDelay b 1000 30000 (real k / real N)"
    if "k < N" for k
    using that assms by (intro getBackoffDelay_mono) simp_all
  then show ?thesis
    unfolding expectedDelay_def
    by (intro divide_right_mono sum_mono) simp_all
qed

lemma getBackoffDelay_draws:
  "getBackoffDelay attempt 1000 30000 0 = \<lfloor>9 * cappedDelay attempt / 10\<rfloor>"
  "getBackoffDelay attempt 1000 30000 (1/2) = \<lfloor>cappedDelay attempt\<rfloor>"
proof -
  have "fl (cappedDelay attempt / 10 * fl (fl (0 * 2) - 1)) = - (cappedDelay attempt / 10)"
    using fl_capped [of 1 attempt] by (simp add: fl_minus)
  then have "getBackoffDelay attempt 1000 30000 0
      = \<lfloor>fl (cappedDelay attempt + - (cappedDelay attempt / 10))\<rfloor>"
    by (simp only: getBackoffDelay_eq)
  also have "cappedDelay attempt + - (cappedDelay attempt / 10) = of_int 9 * (cappedDelay attempt / 10)"
    by simp
  also have "fl (of_int 9 * (cappedDelay attempt / 10)) = of_int 9 * (cappedDelay attempt / 10)"
    by (rule fl_capped) simp
  finally show "getBackoffDelay attempt 1000 30000 0 = \<lfloor>9 * cappedDelay attempt / 10\<rfloor>"
    by simp
  show "getBackoffDelay attempt 1000 30000 (1/2) = \<lfloor>cappedDelay attempt\<rfloor>"
    by (simp add: getBackoffDelay_eq fl_cappedDelay)
qed

text \<open>
  At the largest number below 1 the jitter is one step below a tenth of the capped delay,
  and the sum is rounded up to eleven tenths of it.
\<close>

lemma getBackoffDelay_largest_draw:
  "getBackoffDelay 0 1000 30000 (1 - 1 / 2 ^ 53) = 1100"
  "getBackoffDelay 5 1000 30000 (1 - 1 / 2 ^ 53) = 33000"
proof -
  have r2: "fl ((1 - 1 / 2 ^ 53) * 2) = 2 - 1 / 2 ^ 52"
    using fl_exact [of "2 ^ 53 - 1" "- 52"] by (simp add: power_int_minus field_simps)
  have t: "fl (2 - 1 / 2 ^ 52 - 1) = 1 - 1 / 2 ^ 52"
    using fl_exact [of "2 ^ 52 - 1" "- 52"] by (simp add: power_int_minus field_simps)
  have j0: "fl (1000 / 10 * (1 - 1 / 2 ^ 52)) = 100 - 1 / 2 ^ 45"
  proof -
    have "fl (1000 / 10 * (1 - 1 / 2 ^ 52))
        = of_int (roundEven (1000 / 10 * (1 - 1 / 2 ^ 52) / 2 powi (6 - 52))) * 2 powi (6 - 52)"
      by (rule fl_eval) (simp_all add: power_int_minus)
    also have "roundEven (1000 / 10 * (1 - 1 / 2 ^ 52) / 2 powi (6 - 52)) = 100 * 2 ^ 46 - 2"
      by (simp add: roundEven_def Let_def power_int_minus)
    finally show ?thesis by (simp add: power_int_minus)
  qed
  have s0: "fl (1000 + (100 - 1 / 2 ^ 45)) = 1100"
  proof -
    have "fl (1000 + (100 - 1 / 2 ^ 45))
        = of_int (roundEven ((1000 + (100 - 1 / 2 ^ 45)) / 2 powi (10 - 52))) * 2 powi (10 - 52)"
      by (rule fl_eval) (simp_all add: power_int_minus)
    also have "roundEven ((1000 + (100 - 1 / 2 ^ 45)) / 2 powi (10 - 52)) = 1100 * 2 ^ 42"
      by (simp add: roundEven_def Let_def power_int_minus)
    finally show ?thesis by (simp add: power_int_minus)
  qed
  have c0: "cappedDelay 0 = 1000" and c5: "cappedDelay 5 = 30000"
    by (simp_all add: cappedDelay_def)
  show "getBackoffDelay 0 1000 30000 (1 - 1 / 2 ^ 53) = 1100"
    unfolding getBackoffDelay_eq c0 r2 t j0 s0 by simp
  have j5: "fl (30000 / 10 * (1 - 1 / 2 ^ 52)) = 3000 - 1 / 2 ^ 41"
  proof -
    have "fl (30000 / 10 * (1 - 1 / 2 ^ 52))
        = of_int (roundEven (30000 / 10 * (1 - 1 / 2 ^ 52) / 2 powi (11 - 52))) * 2 powi (11 - 52)"
      by (rule fl_eval) (simp_all add: power_int_minus)
    also have "roundEven (30000 / 10 * (1 - 1 / 2 ^ 52) / 2 powi (11 - 52)) = 3000 * 2 ^ 41 - 1"
      by (simp add: roundEven_def Let_def power_int_minus)
    finally show ?thesis by (simp add: power_int_minus)
  qed
  have s5: "fl (30000 + (3000 - 1 / 2 ^ 41)) = 33000"
  proof -
    have "fl (30000 + (3000 - 1 / 2 ^ 41))
        = of_int (roundEven ((30000 + (3000 - 1 / 2 ^ 41)) / 2 powi (15 - 52))) * 2 powi (15 - 52)"
      by (rule fl_eval) (simp_all add: power_int_minus)
    also have "roundEven ((30000 + (3000 - 1 / 2 ^ 41)) / 2 powi (15 - 52)) = 33000 * 2 ^ 37"
      by (simp add: roundEven_def Let_def power_int_minus)
    finally show ?thesis by (simp add: power_int_minus)
  qed
  show "getBackoffDelay 5 1000 30000 (1 - 1 / 2 ^ 53) = 33000"
    unfolding getBackoffDelay_eq c5 r2 t j5 s5 by simp
qed

lemma getBackoffDelay_near:
  assumes "0 \<le> rnd" "rnd < 1"
  shows "\<bar>fl (cappedDelay attempt + fl (cappedDelay attempt / 10 * fl (fl (rnd * 2) - 1)))
           - (cappedDelay attempt + cappedDelay attempt / 10 * (rnd * 2 - 1))\<bar> \<le> 1 / 2 ^ 36"
proof -
  define d where "d = cappedDelay attempt"
  define z where "z = fl (rnd * 2) - 1"
  define t where "t = fl z"
  define j where "j = fl (d / 10 * t)"
  have d: "1000 \<le> d" "d \<le> 30000" using cappedDelay_bounds [of attempt] by (simp_all add: d_def)
  have tb: "- 1 \<le> t" "t \<le> 1"
    using jitter_factor_bounds [OF assms] by (simp_all add: t_def z_def)
  have jb: "\<bar>j\<bar> \<le> d / 10"
    using backoff_jitter_bounds [OF assms, of attempt] by (simp add: j_def t_def z_def d_def)
  have "\<bar>fl (rnd * 2) - rnd * 2\<bar> \<le> 2 powi (1 - 53)"
    using assms by (intro fl_error_le) (simp add: abs_le_iff)
  then have e1: "\<bar>z - (rnd * 2 - 1)\<bar> \<le> 1 / 2 ^ 52"
    by (simp add: z_def power_int_minus)
  have zb: "\<bar>z\<bar> \<le> 1"
  proof -
    have "fl 0 \<le> fl (rnd * 2)" using assms by (intro fl_mono) simp
    moreover have "fl (rnd * 2) \<le> fl 2" using assms by (intro fl_mono) simp
    ultimately show ?thesis by (simp add: z_def fl_numeral abs_le_iff)
  qed
  have "\<bar>fl z - z\<bar> \<le> 2 powi (0 - 53)"
    using zb by (intro fl_error_le) simp
  then have e2: "\<bar>t - z\<bar> \<le> 1 / 2 ^ 53"
    by (simp add: t_def power_int_minus)
  have "\<bar>t - (rnd * 2 - 1)\<bar> \<le> \<bar>t - z\<bar> + \<bar>z - (rnd * 2 - 1)\<bar>" by linarith
  moreover have "1 / 2 ^ 53 + 1 / 2 ^ 52 \<le> (1 / 2 ^ 51 :: real)" by simp
  ultimately have e3: "\<bar>t - (rnd * 2 - 1)\<bar> \<le> 1 / 2 ^ 51" using e1 e2 by linarith
  have "\<bar>d / 10 * t\<bar> \<le> 2 powi 12"
  proof -
    have "\<bar>d / 10 * t\<bar> = d / 10 * \<bar>t\<bar>" using d by (simp add: abs_mult)
    also have "\<dots> \<le> d / 10 * 1" using d tb by (intro mult_left_mono) (simp_all add: abs_le_iff)
    also have "\<dots> \<le> 2 powi 12" using d by simp
    finally show ?thesis .
  qed
  then have "\<bar>fl (d / 10 * t) - d / 10 * t\<bar> \<le> 2 powi (12 - 53)" by (rule fl_error_le)
  then have e4: "\<bar>j - d / 10 * t\<bar> \<le> 1 / 2 ^ 41"
    by (simp add: j_def power_int_minus)
  have e5: "\<bar>d / 10 * t - d / 10 * (rnd * 2 - 1)\<bar> \<le> 1 / 2 ^ 39"
  proof -
    have "d / 10 * t - d / 10 * (rnd * 2 - 1) = d / 10 * (t - (rnd * 2 - 1))"
      by (simp only: right_diff_distrib)
    then have "\<bar>d / 10 * t - d / 10 * (rnd * 2 - 1)\<bar> = \<bar>d / 10\<bar> * \<bar>t - (rnd * 2 - 1)\<bar>"
      by (simp only: abs_mult)
    also have "\<bar>d / 10\<bar> = d / 10" using d by simp
    finally have "\<bar>d / 10 * t - d / 10 * (rnd * 2 - 1)\<bar> = d / 10 * \<bar>t - (rnd * 2 - 1)\<bar>" .
    also have "\<dots> \<le> 4096 * (1 / 2 ^ 51)"
      using d e3 by (intro mult_mono) simp_all
    finally show ?thesis by simp
  qed
  have "\<bar>d + j\<bar> \<le> 2 powi 16" using d jb by (simp add: abs_le_iff)
  then have "\<bar>fl (d + j) - (d + j)\<bar> \<le> 2 powi (16 - 53)" by (rule fl_error_le)
  then have e6: "\<bar>fl (d + j) - (d + j)\<bar> \<le> 1 / 2 ^ 37"
    by (simp add: power_int_minus)
  have "\<bar>fl (d + j) - (d + d / 10 * (rnd * 2 - 1))\<bar>
      \<le> \<bar>fl (d + j) - (d + j)\<bar> + \<bar>j - d / 10 * t\<bar>
        + \<bar>d / 10 * t - d / 10 * (rnd * 2 - 1)\<bar>"
    by linarith
  moreover have "1 / 2 ^ 37 + 1 / 2 ^ 41 + 1 / 2 ^ 39 \<le> (1 / 2 ^ 36 :: real)" by simp
  ultimately have "\<bar>fl (d + j) - (d + d / 10 * (rnd * 2 - 1))\<bar> \<le> 1 / 2 ^ 36"
    using e4 e5 e6 by linarith
  then show ?thesis by (simp only: d_def j_def t_def z_def)
qed

lemma getBackoffDelay_mono_draw:
  assumes "0 \<le> rnd" "rnd \<le> rnd'"
  shows "getBackoffDelay attempt 1000 30000 rnd \<le> getBackoffDelay attempt 1000 30000 rnd'"
proof -
  have d: "0 \<le> cappedDelay attempt / 10" using cappedDelay_bounds [of attempt] by simp
  have "fl (rnd * 2) \<le> fl (rnd' * 2)" using assms by (intro fl_mono) simp
  then have "fl (fl (rnd * 2) - 1) \<le> fl (fl (rnd' * 2) - 1)" by (intro fl_mono) simp
  then have "cappedDelay attempt / 10 * fl (fl (rnd * 2) - 1)
      \<le> cappedDelay attempt / 10 * fl (fl (rnd' * 2) - 1)"
    using d by (rule mult_left_mono)
  then have "fl (cappedDelay attempt / 10 * fl (fl (rnd * 2) - 1))
      \<le> fl (cappedDelay attempt / 10 * fl (fl (rnd' * 2) - 1))"
    by (rule fl_mono)
  then show ?thesis
    unfolding getBackoffDelay_eq by (intro floor_mono fl_mono) simp
qed

text \<open>
  Claim C6: for a random number \<open>rnd\<close> in \<open>[0, 1)\<close> the backoff delay is the floor of the
  capped delay \<open>min (1000 * 2 ^ attempt) 30000\<close> plus the jitter, in the arithmetic of
  JavaScript numbers. The jitter is that of the draw: a tenth of the capped delay times
  \<open>2 * rnd - 1\<close>, within a tenth of the capped delay on either side, and the sum is within
  \<open>1 / 2 ^ 36\<close> of the exact \<open>capped + capped / 10 * (2 * rnd - 1)\<close>. The delay is nine tenths of
  the capped delay at the draw 0, the capped delay at the draw 1/2, and it does not decrease
  when the draw grows. It lies between nine and eleven tenths of the capped delay, so it is
  never negative and never above 33000, which it reaches at the largest number below 1,
  where the sum is rounded up; it does not decrease when the attempt grows, for each random
  number, and so neither does its expectation.
\<close>

theorem getBackoffDelay_range:
  assumes "0 \<le> rnd" "rnd < 1"
  shows "cappedDelay attempt = min (1000 * 2 ^ attempt) 30000
       \<and> getBackoffDelay attempt 1000 30000 rnd
           = \<lfloor>fl (cappedDelay attempt
                 + fl (cappedDelay attempt / 10 * fl (fl (rnd * 2) - 1)))\<rfloor>
       \<and> \<bar>fl (cappedDelay attempt / 10 * fl (fl (rnd * 2) - 1))\<bar> \<le> cappedDelay attempt / 10
       \<and> \<bar>fl (cappedDelay attempt + fl (cappedDelay attempt / 10 * fl (fl (rnd * 2) - 1)))
            - (cappedDelay attempt + cappedDelay attempt / 10 * (rnd * 2 - 1))\<bar> \<le> 1 / 2 ^ 36
       \<and> getBackoffDelay attempt 1000 30000 0 = \<lfloor>9 * cappedDelay attempt / 10\<rfloor>
       \<and> getBackoffDelay attempt 1000 30000 (1 / 2) = \<lfloor>cappedDelay attempt\<rfloor>
       \<and> (\<forall>r \<ge> rnd. getBackoffDelay attempt 1000 30000 rnd \<le> getBackoffDelay attempt 1000 30000 r)
       \<and> 9 * cappedDelay attempt / 10 \<le> real_of_int (getBackoffDelay attempt 1000 30000 rnd)
       \<and> real_of_int (getBackoffDelay attempt 1000 30000 rnd) \<le> 11 * cappedDelay attempt / 10
       \<and> 0 \<le> getBackoffDelay attempt 1000 30000 rnd
       \<and> getBackoffDelay attempt 1000 30000 rnd \<le> 33000
       \<and> getBackoffDelay 0 1000 30000 (1 - 1 / 2 ^ 53) = 1100
       \<and> getBackoffDelay 5 1000 30000 (1 - 1 / 2 ^ 53) = 33000
       \<and> (\<forall>b \<ge> attempt. getBackoffDelay attempt 1000 30000 rnd \<le> getBackoffDelay b 1000 30000 rnd)
       \<and> (\<forall>b \<ge> attempt. \<forall>N. expectedDelay N attempt \<le> expectedDelay N b)"
proof (intro conjI allI impI)
  show "cappedDelay attempt = min (1000 * 2 ^ attempt) 30000"
    by (rule cappedDelay_def)
  show "getBackoffDelay attempt 1000 30000 rnd
           = \<lfloor>fl (cappedDelay attempt
                 + fl (cappedDelay attempt / 10 * fl (fl (rnd * 2) - 1)))\<rfloor>"
    by (rule getBackoffDelay_eq)
  show "\<bar>fl (cappedDelay attempt / 10 * fl (fl (rnd * 2) - 1))\<bar> \<le> cappedDelay attempt / 10"
    using assms by (rule backoff_jitter_bounds)
  show "\<bar>fl (cappedDelay attempt + fl (cappedDelay attempt / 10 * fl (fl (rnd * 2) - 1)))
            - (cappedDelay attempt + cappedDelay attempt / 10 * (rnd * 2 - 1))\<bar> \<le> 1 / 2 ^ 36"
    using assms by (rule getBackoffDelay_near)
  show "getBackoffDelay attempt 1000 30000 0 = \<lfloor>9 * cappedDelay attempt / 10\<rfloor>"
    by (rule getBackoffDelay_draws)
  show "getBackoffDelay attempt 1000 30000 (1 / 2) = \<lfloor>cappedDelay attempt\<rfloor>"
    by (rule getBackoffDelay_draws)
  show lo: "9 * cappedDelay attempt / 10 \<le> real_of_int (getBackoffDelay attempt 1000 30000 rnd)"
    using assms by (rule getBackoffDelay_bounds)
  show hi: "real_of_int (getBackoffDelay attempt 1000 30000 rnd) \<le> 11 * cappedDelay attempt / 10"
    using assms by (rule getBackoffDelay_bounds)
  from lo cappedDelay_bounds(1) [of attempt]
  have "0 \<le> real_of_int (getBackoffDelay attempt 1000 30000 rnd)" by linarith
  then show "0 \<le> getBackoffDelay attempt 1000 30000 rnd" by simp
  from hi cappedDelay_bounds(2) [of attempt]
  have "real_of_int (getBackoffDelay attempt 1000 30000 rnd) \<le> 33000" by linarith
  then show "getBackoffDelay attempt 1000 30000 rnd \<le> 33000" by linarith
  show "getBackoffDelay 0 1000 30000 (1 - 1 / 2 ^ 53) = 1100"
    by (rule getBackoffDelay_largest_draw)
  show "getBackoffDelay 5 1000 30000 (1 - 1 / 2 ^ 53) = 33000"
    by (rule getBackoffDelay_largest_draw)
next
  fix r assume "rnd \<le> r"
  with assms(1) show "getBackoffDelay attempt 1000 30000 rnd \<le> getBackoffDelay attempt 1000 30000 r"
    by (rule getBackoffDelay_mono_draw)
next
  fix b assume "attempt \<le> b"
  with assms show "getBackoffDelay attempt 1000 30000 rnd \<le> getBackoffDelay b 1000 30000 rnd"
    by (rule getBackoffDelay_mono)
next
  fix b N assume "attempt \<le> b"
  then show "expectedDelay N attempt \<le> expectedDelay N b"
    by (rule expectedDelay_mono)
qed

theorem getBackoffDelay_range_witness:
  "(0::real) \<le> 1/4 \<and> (1/4::real) < 1
   \<and> 0 \<le> getBackoffDelay 3 1000 30000 (1/4)
   \<and> getBackoffDelay 3 1000 30000 (1/4) \<le> 33000
   \<and> getBackoffDelay 3 1000 30000 (1/4) \<le> getBackoffDelay 3 1000 30000 (3/4)
   \<and> getBackoffDelay 3 1000 30000 (1/4) \<le> getBackoffDelay 7 1000 30000 (1/4)
   \<and> getBackoffDelay 3 1000 30000 (1/4) = 7600
   \<and> getBackoffDelay 3 1000 30000 (3/4) = 8400
   \<and> getBackoffDelay 7 1000 30000 (1/4) = 28500"
proof -
  have h: "(0::real) \<le> 1/4" "(1/4::real) < 1" "(0::real) \<le> 3/4" "(3/4::real) < 1" by simp_all
  have c: "cappedDelay 3 = 8000" "cappedDelay 7 = 30000" by (simp_all add: cappedDelay_def)
  note t = getBackoffDelay_range [OF h(1,2), of 3]
  from t have a: "0 \<le> getBackoffDelay 3 1000 30000 (1/4)"
    "getBackoffDelay 3 1000 30000 (1/4) \<le> 33000"
    by blast+
  from t have "\<forall>r \<ge> 1/4. getBackoffDelay 3 1000 30000 (1/4) \<le> getBackoffDelay 3 1000 30000 r"
    by blast
  moreover have "(1/4::real) \<le> 3/4" by simp
  ultimately have b: "getBackoffDelay 3 1000 30000 (1/4) \<le> getBackoffDelay 3 1000 30000 (3/4)"
    by blast
  from t have "\<forall>b \<ge> 3. getBackoffDelay 3 1000 30000 (1/4) \<le> getBackoffDelay b 1000 30000 (1/4)"
    by blast
  moreover have "(3::nat) \<le> 7" by simp
  ultimately have d: "getBackoffDelay 3 1000 30000 (1/4) \<le> getBackoffDelay 7 1000 30000 (1/4)"
    by blast
  from t have "getBackoffDelay 3 1000 30000 (1/4)
      = \<lfloor>fl (cappedDelay 3 + fl (cappedDelay 3 / 10 * fl (fl (1/4 * 2) - 1)))\<rfloor>"
    by blast
  then have e1: "getBackoffDelay 3 1000 30000 (1/4) = 7600"
    by (simp add: c fl_half fl_minus fl_numeral)
  have "getBackoffDelay 3 1000 30000 (3/4)
      = \<lfloor>fl (cappedDelay 3 + fl (cappedDelay 3 / 10 * fl (fl (3/4 * 2) - 1)))\<rfloor>"
    using getBackoffDelay_range [OF h(3,4), of 3] by blast
  moreover have "fl (3 / 2) = 3 / 2"
    using fl_exact [of 3 "- 1"] by (simp add: power_int_minus)
  ultimately have e2: "getBackoffDelay 3 1000 30000 (3/4) = 8400"
    by (simp add: c fl_half fl_minus fl_numeral)
  have "getBackoffDelay 7 1000 30000 (1/4)
      = \<lfloor>fl (cappedDelay 7 + fl (cappedDelay 7 / 10 * fl (fl (1/4 * 2) - 1)))\<rfloor>"
    using getBackoffDelay_range [OF h(1,2), of 7] by blast
  then have e3: "getBackoffDelay 7 1000 30000 (1/4) = 28500"
    by (simp add: c fl_half fl_minus fl_numeral)
  from a b d e1 e2 e3 show ?thesis using h by simp
qed

section \<open>The rate-limit pause\<close>

lemma pauseBase_cases:
  "min (30000 * 2 ^ n) (180000::real) \<in> {30000, 60000, 120000, 180000}"
proof -
  consider "n = 0" | "n = 1" | "n = 2" | "3 \<le> n" by linarith
  then show ?thesis
  proof cases
    case 4
    then have "(2::real) ^ 3 \<le> 2 ^ n" by (intro power_increasing) simp_all
    then show ?thesis by simp
  qed simp_all
qed

lemma fl_pauseBase:
  "fl (min (30000 * 2 ^ n) 180000) = min (30000 * 2 ^ n) 180000"
  "fl (min (30000 * 2 ^ n) 180000 + 5000) = min (30000 * 2 ^ n) 180000 + 5000"
  using pauseBase_cases [of n] by (auto simp: fl_numeral)

lemma rateLimitWaitMs_eq:
  assumes "hits \<ge> 1"
  shows "rateLimitWaitMs hits rnd
           = fl (min (30000 * 2 ^ (hits - 1)) 180000 + fl (rnd * 5000))"
proof -
  from assms have "int hits - 1 = int (hits - 1)" by simp
  then have p: "(2::real) powi (int hits - 1) = 2 ^ (hits - 1)"
    by (simp only: power_int_of_nat)
  have "fl (30000 * 2 powi (int hits - 1)) = 30000 * 2 powi (int hits - 1)"
    using fl_exact [of 30000 "int hits - 1"] by simp
  then show ?thesis by (simp add: rateLimitWaitMs_def Let_def p)
qed

text \<open>A JavaScript number below 1 is at most \<open>1 - 1 / 2 ^ 53\<close>.\<close>

lemma number_below_one:
  assumes "fl x = x" "0 \<le> x" "x < 1"
  shows "x \<le> 1 - 1 / 2 ^ 53"
proof (rule ccontr)
  assume "\<not> x \<le> 1 - 1 / 2 ^ 53"
  then have lo: "1 - 1 / 2 ^ 53 < x" by simp
  then have h: "1 / 2 \<le> x" by simp
  have "fl x = of_int (roundEven (x / 2 powi (- 1 - 52))) * 2 powi (- 1 - 52)"
    using h assms(3) by (intro fl_eval) (simp_all add: power_int_minus)
  with assms(1) have "x = of_int (roundEven (x * 2 ^ 53)) / 2 ^ 53"
    by (simp add: power_int_minus field_simps)
  then have "x * 2 ^ 53 = of_int (roundEven (x * 2 ^ 53))" by (simp add: field_simps)
  moreover from lo have "of_int (2 ^ 53 - 1) < x * 2 ^ 53" by (simp add: field_simps)
  moreover from assms(3) have "x * 2 ^ 53 < of_int (2 ^ 53)" by simp
  ultimately have "of_int (2 ^ 53 - 1) < real_of_int (roundEven (x * 2 ^ 53))"
    and "real_of_int (roundEven (x * 2 ^ 53)) < of_int (2 ^ 53)"
    by simp_all
  then have "2 ^ 53 - 1 < roundEven (x * 2 ^ 53)" "roundEven (x * 2 ^ 53) < 2 ^ 53"
    by (simp_all only: of_int_less_iff)
  then show False by simp
qed

lemma pause_jitter_bounds:
  assumes "0 \<le> rnd" "rnd < 1"
  shows "0 \<le> fl (rnd * 5000)" "fl (rnd * 5000) \<le> 5000"
    and "fl rnd = rnd \<Longrightarrow> fl (rnd * 5000) < 5000"
proof -
  show "0 \<le> fl (rnd * 5000)" using assms by (intro fl_nonneg) simp
  have "fl (rnd * 5000) \<le> fl 5000" using assms by (intro fl_mono) simp
  then show "fl (rnd * 5000) \<le> 5000" by (simp add: fl_numeral)
  assume "fl rnd = rnd"
  then have "rnd \<le> 1 - 1 / 2 ^ 53" using assms by (rule number_below_one)
  then have "fl (rnd * 5000) \<le> fl ((1 - 1 / 2 ^ 53) * 5000)" by (intro fl_mono) simp
  also have "fl ((1 - 1 / 2 ^ 53) * 5000) = 5000 - 1 / 2 ^ 40"
  proof -
    have "fl ((1 - 1 / 2 ^ 53) * 5000)
        = of_int (roundEven ((1 - 1 / 2 ^ 53) * 5000 / 2 powi (12 - 52))) * 2 powi (12 - 52)"
      by (rule fl_eval) (simp_all add: power_int_minus)
    also have "roundEven ((1 - 1 / 2 ^ 53) * 5000 / 2 powi (12 - 52)) = 5000 * 2 ^ 40 - 1"
      by (simp add: roundEven_def Let_def power_int_minus)
    finally show ?thesis by (simp add: power_int_minus)
  qed
  finally show "fl (rnd * 5000) < 5000" by simp
qed

lemma rateLimitWaitMs_bounds:
  assumes "hits \<ge> 1" "0 \<le> rnd" "rnd < 1"
  shows "min (30000 * 2 ^ (hits - 1)) 180000 \<le> rateLimitWaitMs hits rnd"
    and "rateLimitWaitMs hits rnd \<le> min (30000 * 2 ^ (hits - 1)) 180000 + 5000"
proof -
  define b :: real where "b = min (30000 * 2 ^ (hits - 1)) 180000"
  note j = pause_jitter_bounds(1,2) [OF assms(2,3)]
  have e: "fl b = b" "fl (b + 5000) = b + 5000"
    unfolding b_def by (rule fl_pauseBase)+
  have "fl b \<le> fl (b + fl (rnd * 5000))" using j by (intro fl_mono) simp
  then show "min (30000 * 2 ^ (hits - 1)) 180000 \<le> rateLimitWaitMs hits rnd"
    unfolding rateLimitWaitMs_eq [OF assms(1)] b_def [symmetric] e .
  have "fl (b + fl (rnd * 5000)) \<le> fl (b + 5000)" using j by (intro fl_mono) simp
  then show "rateLimitWaitMs hits rnd \<le> min (30000 * 2 ^ (hits - 1)) 180000 + 5000"
    unfolding rateLimitWaitMs_eq [OF assms(1)] b_def [symmetric] e .
qed

text \<open>
  At the largest number below 1 the jitter is one step below 5000, and the sum is rounded
  up to the base plus 5000.
\<close>

lemma rateLimitWaitMs_largest_draw: "rateLimitWaitMs 1 (1 - 1 / 2 ^ 53) = 35000"
proof -
  have j: "fl ((1 - 1 / 2 ^ 53) * 5000) = 5000 - 1 / 2 ^ 40"
  proof -
    have "fl ((1 - 1 / 2 ^ 53) * 5000)
        = of_int (roundEven ((1 - 1 / 2 ^ 53) * 5000 / 2 powi (12 - 52))) * 2 powi (12 - 52)"
      by (rule fl_eval) (simp_all add: power_int_minus)
    also have "roundEven ((1 - 1 / 2 ^ 53) * 5000 / 2 powi (12 - 52)) = 5000 * 2 ^ 40 - 1"
      by (simp add: roundEven_def Let_def power_int_minus)
    finally show ?thesis by (simp add: power_int_minus)
  qed
  have s: "fl (30000 + (5000 - 1 / 2 ^ 40)) = 35000"
  proof -
    have "fl (30000 + (5000 - 1 / 2 ^ 40))
        = of_int (roundEven ((30000 + (5000 - 1 / 2 ^ 40)) / 2 powi (15 - 52))) * 2 powi (15 - 52)"
      by (rule fl_eval) (simp_all add: power_int_minus)
    also have "roundEven ((30000 + (5000 - 1 / 2 ^ 40)) / 2 powi (15 - 52)) = 35000 * 2 ^ 37"
      by (simp add: roundEven_def Let_def power_int_minus)
    finally show ?thesis by (simp add: power_int_minus)
  qed
  have "rateLimitWaitMs 1 (1 - 1 / 2 ^ 53) = fl (30000 + fl ((1 - 1 / 2 ^ 53) * 5000))"
    by (simp add: rateLimitWaitMs_eq)
  then show ?thesis unfolding j s .
qed

lemma rateLimitWaitMs_zero_draw:
  "hits \<ge> 1 \<Longrightarrow> rateLimitWaitMs hits 0 = min (30000 * 2 ^ (hits - 1)) 180000"
  by (simp add: rateLimitWaitMs_eq fl_pauseBase)

lemma rateLimitWaitMs_near:
  assumes "hits \<ge> 1" "0 \<le> rnd" "rnd < 1"
  shows "\<bar>rateLimitWaitMs hits rnd - (min (30000 * 2 ^ (hits - 1)) 180000 + rnd * 5000)\<bar>
           \<le> 1 / 2 ^ 34"
proof -
  define b :: real where "b = min (30000 * 2 ^ (hits - 1)) 180000"
  have b: "0 \<le> b" "b \<le> 180000" by (simp_all add: b_def)
  define j where "j = fl (rnd * 5000)"
  note jb = pause_jitter_bounds(1,2) [OF assms(2,3), folded j_def]
  have "\<bar>rnd * 5000\<bar> \<le> 2 powi 13" using assms by (simp add: abs_le_iff)
  then have "\<bar>fl (rnd * 5000) - rnd * 5000\<bar> \<le> 2 powi (13 - 53)" by (rule fl_error_le)
  then have e1: "\<bar>j - rnd * 5000\<bar> \<le> 1 / 2 ^ 40" by (simp add: j_def power_int_minus)
  have "\<bar>b + j\<bar> \<le> 2 powi 18" using b jb by (simp add: abs_le_iff)
  then have "\<bar>fl (b + j) - (b + j)\<bar> \<le> 2 powi (18 - 53)" by (rule fl_error_le)
  then have e2: "\<bar>fl (b + j) - (b + j)\<bar> \<le> 1 / 2 ^ 35" by (simp add: power_int_minus)
  have "\<bar>fl (b + j) - (b + rnd * 5000)\<bar>
      \<le> \<bar>fl (b + j) - (b + j)\<bar> + \<bar>j - rnd * 5000\<bar>"
    by linarith
  moreover have "1 / 2 ^ 35 + 1 / 2 ^ 40 \<le> (1 / 2 ^ 34 :: real)" by simp
  ultimately have "\<bar>fl (b + j) - (b + rnd * 5000)\<bar> \<le> 1 / 2 ^ 34"
    using e1 e2 by linarith
  then show ?thesis
    unfolding rateLimitWaitMs_eq [OF assms(1)] b_def j_def .
qed

text \<open>
  Claim C7: when an attempt is answered by a rate limit, the counter of consecutive rate
  limits grows by 1 and the pause that is scheduled lasts \<open>min (30000 * 2 ^ (hits - 1)) 180000\<close>
  ms plus the jitter, in the arithmetic of JavaScript numbers, where \<open>hits\<close> is the new
  counter and the jitter is 5000 times the random number of the call, a JavaScript number
  in \<open>[0, 1)\<close>: the jitter is in \<open>[0, 5000)\<close>. For every \<open>hits \<ge> 1\<close> the pause is within
  \<open>1 / 2 ^ 34\<close> of the exact sum, it lies between the base and the base plus 5000, which it
  reaches at the largest number below 1, where the sum is rounded up, and it is the base at
  the draw 0: 30 s, 60 s, 120 s and then 180 s, plus the jitter.
\<close>

theorem rateLimit_pause_tiers:
  assumes "mountedRef s" and "i < length (suspended s)"
    and "suspended s ! i = AwaitUpload nextItem"
    and "0 \<le> rnd" and "rnd < 1" and "fl rnd = rnd"
  shows "consecutiveRateLimitsRef (uploadResolved i R_rate_limit rnd s)
           = consecutiveRateLimitsRef s + 1
     \<and> timers (uploadResolved i R_rate_limit rnd s) = timers s @
          [(nextHandle s, RateLimitTick,
            fl (min (30000 * 2 ^ consecutiveRateLimitsRef s) 180000 + fl (rnd * 5000)))]
     \<and> 0 \<le> fl (rnd * 5000) \<and> fl (rnd * 5000) < 5000
     \<and> (\<forall>hits \<ge> 1.
          rateLimitWaitMs hits rnd
            = fl (min (30000 * 2 ^ (hits - 1)) 180000 + fl (rnd * 5000)) \<and>
          \<bar>rateLimitWaitMs hits rnd - (min (30000 * 2 ^ (hits - 1)) 180000 + rnd * 5000)\<bar>
            \<le> 1 / 2 ^ 34 \<and>
          min (30000 * 2 ^ (hits - 1)) 180000 \<le> rateLimitWaitMs hits rnd \<and>
          rateLimitWaitMs hits rnd \<le> min (30000 * 2 ^ (hits - 1)) 180000 + 5000 \<and>
          rateLimitWaitMs hits 0 = min (30000 * 2 ^ (hits - 1)) 180000)
     \<and> rateLimitWaitMs 1 (1 - 1 / 2 ^ 53) = 35000
     \<and> rateLimitWaitMs 1 rnd = fl (30000 + fl (rnd * 5000))
     \<and> rateLimitWaitMs 2 rnd = fl (60000 + fl (rnd * 5000))
     \<and> rateLimitWaitMs 3 rnd = fl (120000 + fl (rnd * 5000))
     \<and> (\<forall>hits \<ge> 4. rateLimitWaitMs hits rnd = fl (180000 + fl (rnd * 5000)))"
proof (intro conjI allI impI)
  let ?s' = "uploadResolved i R_rate_limit rnd s"
  show "consecutiveRateLimitsRef ?s' = consecutiveRateLimitsRef s + 1"
    using assms(1-3)
    by (simp add: uploadResolved_def takeSuspended_def onRateLimit_def setTimeout_def Let_def)
  have "timers ?s' = timers s @
     [(nextHandle s, RateLimitTick, rateLimitWaitMs (consecutiveRateLimitsRef s + 1) rnd)]"
    using assms(1-3)
    by (simp add: uploadResolved_def takeSuspended_def onRateLimit_def setTimeout_def Let_def)
  then show "timers ?s' = timers s @
          [(nextHandle s, RateLimitTick,
            fl (min (30000 * 2 ^ consecutiveRateLimitsRef s) 180000 + fl (rnd * 5000)))]"
    by (simp add: rateLimitWaitMs_eq)
  show "0 \<le> fl (rnd * 5000)" using assms(4,5) by (rule pause_jitter_bounds)
  show "fl (rnd * 5000) < 5000" using assms(4-6) by (rule pause_jitter_bounds)
  show "rateLimitWaitMs 1 (1 - 1 / 2 ^ 53) = 35000"
    by (rule rateLimitWaitMs_largest_draw)
  show "rateLimitWaitMs 1 rnd = fl (30000 + fl (rnd * 5000))"
    by (simp add: rateLimitWaitMs_eq)
  show "rateLimitWaitMs 2 rnd = fl (60000 + fl (rnd * 5000))"
    by (simp add: rateLimitWaitMs_eq)
  show "rateLimitWaitMs 3 rnd = fl (120000 + fl (rnd * 5000))"
    by (simp add: rateLimitWaitMs_eq)
next
  fix hits :: nat assume h: "1 \<le> hits"
  then show "rateLimitWaitMs hits rnd
            = fl (min (30000 * 2 ^ (hits - 1)) 180000 + fl (rnd * 5000))"
    by (rule rateLimitWaitMs_eq)
  from h assms(4,5)
  show "\<bar>rateLimitWaitMs hits rnd - (min (30000 * 2 ^ (hits - 1)) 180000 + rnd * 5000)\<bar>
            \<le> 1 / 2 ^ 34"
    by (rule rateLimitWaitMs_near)
  from h assms(4,5) show "min (30000 * 2 ^ (hits - 1)) 180000 \<le> rateLimitWaitMs hits rnd"
    by (rule rateLimitWaitMs_bounds)
  from h assms(4,5)
  show "rateLimitWaitMs hits rnd \<le> min (30000 * 2 ^ (hits - 1)) 180000 + 5000"
    by (rule rateLimitWaitMs_bounds)
  from h show "rateLimitWaitMs hits 0 = min (30000 * 2 ^ (hits - 1)) 180000"
    by (rule rateLimitWaitMs_zero_draw)
next
  fix hits :: nat assume h: "4 \<le> hits"
  then have "(2::real) ^ 3 \<le> 2 ^ (hits - 1)" by (intro power_increasing) simp_all
  then have "min (30000 * 2 ^ (hits - 1)) (180000::real) = 180000" by simp
  with h show "rateLimitWaitMs hits rnd = fl (180000 + fl (rnd * 5000))"
    by (simp add: rateLimitWaitMs_eq)
qed

theorem rateLimit_pause_tiers_witness:
  "mountedRef inFlightExample
   \<and> suspended inFlightExample ! 0 = AwaitUpload (exampleItem ''a'' Pending 0)
   \<and> (0::real) \<le> 1/2 \<and> (1/2::real) < 1 \<and> fl (1/2) = 1/2
   \<and> consecutiveRateLimitsRef inFlightExample = 0
   \<and> consecutiveRateLimitsRef (uploadResolved 0 R_rate_limit (1/2) inFlightExample) = 1
   \<and> timers (uploadResolved 0 R_rate_limit (1/2) inFlightExample) = [(1, RateLimitTick, 32500)]
   \<and> rateLimitWaitMs 3 (1/2) = 122500
   \<and> rateLimitWaitMs 4 (1/2) = 182500"
proof -
  have h: "mountedRef inFlightExample" "0 < length (suspended inFlightExample)"
    "suspended inFlightExample ! 0 = AwaitUpload (exampleItem ''a'' Pending 0)"
    by (simp_all add: inFlightExample_eval initEngine_def)
  have r: "(0::real) \<le> 1/2" "(1/2::real) < 1" "fl (1/2) = 1/2" by (simp_all add: fl_half)
  have z: "consecutiveRateLimitsRef inFlightExample = 0" "timers inFlightExample = []"
    "nextHandle inFlightExample = 1"
    by (simp_all add: inFlightExample_eval initEngine_def)
  note t = rateLimit_pause_tiers [OF h r]
  from t have "consecutiveRateLimitsRef (uploadResolved 0 R_rate_limit (1/2) inFlightExample) = 1"
    by (simp add: z)
  moreover from t have "timers (uploadResolved 0 R_rate_limit (1/2) inFlightExample)
      = [(1, RateLimitTick, 32500)]"
    by (simp add: z fl_numeral)
  moreover from t have "rateLimitWaitMs 3 (1/2) = 122500" by (simp add: fl_numeral)
  moreover from t have "rateLimitWaitMs 4 (1/2) = 182500" by (simp add: fl_numeral)
  ultimately show ?thesis using h r z by simp
qed

section \<open>The offline store across clearQueue\<close>

lemma idb_get_idb_set: "idb_get k (idb_set k v db) = Some v"
  by (induction db) (auto simp: idb_get_def)

lemma collectCaptures_mem:
  "k \<in> set ks \<Longrightarrow> idb_get k db = Some c \<Longrightarrow> c \<in> set (collectCaptures db ks)"
  by (induction ks) (auto split: option.splits)

lemma getOfflineQueue_mem:
  assumes "idb_get (STORE_PREFIX @ i) db = Some c"
  shows "c \<in> set (getOfflineQueue db)"
proof -
  from assms have "STORE_PREFIX @ i \<in> set (idb_keys db)"
    by (auto simp: idb_get_def idb_keys_def dest: map_of_SomeD intro: rev_image_eqI)
  then have "STORE_PREFIX @ i \<in> set (filter (\<lambda>k. prefix STORE_PREFIX k) (idb_keys db))"
    by simp
  from collectCaptures_mem [OF this assms] show ?thesis
    by (simp add: getOfflineQueue_def Let_def)
qed

text \<open>The captures come in the order of their keys, not in the order of the saves.\<close>

lemma getOfflineQueue_ascending:
  "map item_id (getOfflineQueue
       (saveToOfflineQueue (exampleItem ''a'' Error 5)
          (saveToOfflineQueue (exampleItem ''b'' Error 5) [])))
     = [''a'', ''b'']"
  by (simp add: getOfflineQueue_def idb_keys_def idb_get_def saveToOfflineQueue_def
      STORE_PREFIX_def exampleItem_def Let_def)

lemma loadOfflineQueue_queue: "queue (loadOfflineQueue s) = queue s @ getOfflineQueue (idb s)"
  by (simp add: loadOfflineQueue_def Let_def)

lemma clearQueue_fields:
  "idb (clearQueue s) = idb s" "queue (clearQueue s) = []" "processingRef (clearQueue s) = False"
  "isUploading (clearQueue s) = isUploading s" "isRateLimited (clearQueue s) = isRateLimited s"
  "mountedRef (clearQueue s) = mountedRef s" "queueRef (clearQueue s) = queueRef s"
  "consecutiveRateLimitsRef (clearQueue s) = consecutiveRateLimitsRef s"
  "suspended (clearQueue s) = suspended s" "nextHandle (clearQueue s) = nextHandle s"
  "nextTimerRef (clearQueue s) = nextTimerRef s" "rateLimitTimerRef (clearQueue s) = rateLimitTimerRef s"
  by (simp_all add: clearQueue_def clearTimeoutRef_def split: option.splits)

text \<open>
  Claim C10: \<^verbatim>\<open>clearQueue\<close> changes the queue, \<^verbatim>\<open>processingRef\<close> and the scheduled timers
  only; it leaves the offline store as it is (and the two React flags, the mounted flag,
  the rate-limit counter and the suspended calls): a capture that the
  store holds, such as one saved by \<^verbatim>\<open>saveToOfflineQueue\<close>, is still held after it, is
  among the captures that \<^verbatim>\<open>getOfflineQueue\<close> returns and is in the queue after
  \<^verbatim>\<open>loadOfflineQueue\<close>, which appends the captures of the store to the queue.
\<close>

theorem clearQueue_keeps_store:
  "idb (clearQueue s) = idb s
   \<and> clearQueue s = s\<lparr>queue := [], processingRef := False, timers := timers (clearQueue s)\<rparr>
   \<and> isUploading (clearQueue s) = isUploading s
   \<and> isRateLimited (clearQueue s) = isRateLimited s
   \<and> mountedRef (clearQueue s) = mountedRef s
   \<and> consecutiveRateLimitsRef (clearQueue s) = consecutiveRateLimitsRef s
   \<and> suspended (clearQueue s) = suspended s
   \<and> idb_get (STORE_PREFIX @ item_id c) (saveToOfflineQueue c db) = Some c
   \<and> (\<forall>i c. idb_get (STORE_PREFIX @ i) (idb s) = Some c \<longrightarrow>
         idb_get (STORE_PREFIX @ i) (idb (clearQueue s)) = Some c \<and>
         c \<in> set (getOfflineQueue (idb (clearQueue s))) \<and>
         c \<in> set (queue (loadOfflineQueue (clearQueue s))))
   \<and> queue (loadOfflineQueue (clearQueue s)) = getOfflineQueue (idb s)
   \<and> (\<forall>t. queue (loadOfflineQueue t) = queue t @ getOfflineQueue (idb t))"
proof -
  have "clearQueue s = s\<lparr>queue := [], processingRef := False, timers := timers (clearQueue s)\<rparr>"
    by (simp add: clearQueue_def clearTimeoutRef_def split: option.splits)
  then show ?thesis
    by (simp add: clearQueue_fields loadOfflineQueue_queue getOfflineQueue_mem
        saveToOfflineQueue_def idb_get_idb_set)
qed

theorem clearQueue_keeps_store_witness:
  "idb_get (STORE_PREFIX @ ''a'')
      (idb ((initEngine [(''upload_queue_a'', exampleItem ''a'' Error 5)])
              \<lparr>queue := [exampleItem ''b'' Pending 0]\<rparr>))
     = Some (exampleItem ''a'' Error 5)
   \<and> idb (clearQueue ((initEngine [(''upload_queue_a'', exampleItem ''a'' Error 5)])
              \<lparr>queue := [exampleItem ''b'' Pending 0]\<rparr>))
     = [(''upload_queue_a'', exampleItem ''a'' Error 5)]
   \<and> queue (loadOfflineQueue (clearQueue
          ((initEngine [(''upload_queue_a'', exampleItem ''a'' Error 5)])
              \<lparr>queue := [exampleItem ''b'' Pending 0]\<rparr>)))
     = [exampleItem ''a'' Error 5]"
proof -
  define S where "S = (initEngine [(''upload_queue_a'', exampleItem ''a'' Error 5)])
              \<lparr>queue := [exampleItem ''b'' Pending 0]\<rparr>"
  have g: "idb_get (STORE_PREFIX @ ''a'') (idb S) = Some (exampleItem ''a'' Error 5)"
    by (simp add: S_def initEngine_def idb_get_def STORE_PREFIX_def)
  have db: "idb S = [(''upload_queue_a'', exampleItem ''a'' Error 5)]"
    by (simp add: S_def initEngine_def)
  note t = clearQueue_keeps_store [where s = S and c = "exampleItem ''a'' Error 5" and db = "[]"]
  from t have "idb (clearQueue S) = idb S" by (rule conjunct1)
  moreover from t have "queue (loadOfflineQueue (clearQueue S)) = getOfflineQueue (idb S)"
    by (elim conjE)
  moreover have "getOfflineQueue (idb S) = [exampleItem ''a'' Error 5]"
    by (simp add: db getOfflineQueue_def idb_keys_def idb_get_def STORE_PREFIX_def Let_def)
  ultimately show ?thesis using g db unfolding S_def by simp
qed

section \<open>Rate-limited attempts\<close>

lemma mapItem_length [simp]: "length (mapItem i f q) = length q"
  by (simp add: mapItem_def)

lemma mapItem_nth: "k < length q \<Longrightarrow> mapItem i f q ! k = (if item_id (q ! k) = i then f (q ! k) else q ! k)"
  by (simp add: mapItem_def)

lemma mapItem_retryCount:
  "(\<And>q. retryCount (f q) = retryCount q) \<Longrightarrow> map retryCount (mapItem i f q) = map retryCount q"
  by (simp add: mapItem_def)

lemma processNext_retryCounts: "map retryCount (queue (processNext rnd s)) = map retryCount (queue s)"
  by (simp add: processNext_def Let_def mapItem_retryCount split: option.splits)

lemma effects_retryCounts: "map retryCount (queue (effects rnd s)) = map retryCount (queue s)"
  by (simp add: effects_def autoStart_def startProcessing_def Let_def processNext_retryCounts)

lemma handler_retryCounts:
  "rateLimitedOnly e \<Longrightarrow> map retryCount (queue (handler rnd e s)) = map retryCount (queue s)"
proof (cases e)
  case (BackoffElapsed i)
  then show ?thesis
    by (simp add: backoffElapsed_def takeSuspended_def Let_def split: suspension.splits)
next
  case (UploadResolved i result)
  assume "rateLimitedOnly e"
  with UploadResolved show ?thesis
    by (simp add: uploadResolved_def takeSuspended_def onRateLimit_def setTimeout_def Let_def
        mapItem_retryCount split: suspension.splits)
next
  case (TimerFires h)
  then show ?thesis
    by (simp add: timerFires_def Let_def processNext_retryCounts
        split: option.splits timerCallback.splits)
qed simp_all

lemma run_retryCounts:
  "\<forall>x \<in> set es. rateLimitedOnly (snd x) \<Longrightarrow>
   map retryCount (queue (run es s)) = map retryCount (queue s)"
proof (induction es arbitrary: s)
  case Nil
  then show ?case by simp
next
  case (Cons x es)
  obtain rnd e where x: "x = (rnd, e)" by (cases x)
  with Cons.prems have "rateLimitedOnly e" by simp
  then have "map retryCount (queue (fire rnd e s)) = map retryCount (queue s)"
    by (simp add: fire_def effects_retryCounts handler_retryCounts)
  with Cons x show ?case by simp
qed

lemma fire_rate_limit:
  assumes "mountedRef s" "i < length (suspended s)" "suspended s ! i = AwaitUpload nextItem"
  shows "queue (fire rnd (UploadResolved i R_rate_limit) s)
           = mapItem (item_id nextItem) (\<lambda>q. q\<lparr>status := Pending\<rparr>) (queue s)"
    and "consecutiveRateLimitsRef (fire rnd (UploadResolved i R_rate_limit) s)
           = consecutiveRateLimitsRef s + 1"
  using assms
  by (simp_all add: fire_def effects_def autoStart_def uploadResolved_def takeSuspended_def
      onRateLimit_def setTimeout_def Let_def)

lemma processNext_counter:
  "consecutiveRateLimitsRef (processNext rnd s) = consecutiveRateLimitsRef s"
  by (simp add: processNext_def Let_def split: option.splits)

lemma fire_success_counter:
  assumes "mountedRef s" "i < length (suspended s)" "suspended s ! i = AwaitUpload nextItem"
  shows "consecutiveRateLimitsRef (fire rnd (UploadResolved i R_success) s) = 0"
  using assms
  by (simp add: fire_def effects_def autoStart_def startProcessing_def processNext_counter
      uploadResolved_def takeSuspended_def onSuccess_def setTimeout_def Let_def)

text \<open>
  Claim C4: an attempt that is answered by a rate limit leaves every retry count as it
  is, sets the items with the id of the attempted item to \<^verbatim>\<open>pending\<close> with no other
  change, leaves the other items as they are, and adds 1 to the counter of consecutive
  rate limits; a success sets this counter to 0; and no retry count changes in a stretch
  of any length in which every attempt is answered by a rate limit.
\<close>

theorem rate_limit_keeps_retryCount:
  assumes "mountedRef s" "i < length (suspended s)" "suspended s ! i = AwaitUpload nextItem"
  shows "length (queue (fire rnd (UploadResolved i R_rate_limit) s)) = length (queue s)
     \<and> (\<forall>k < length (queue s).
          retryCount (queue (fire rnd (UploadResolved i R_rate_limit) s) ! k)
            = retryCount (queue s ! k) \<and>
          (item_id (queue s ! k) = item_id nextItem \<longrightarrow>
             queue (fire rnd (UploadResolved i R_rate_limit) s) ! k
               = (queue s ! k)\<lparr>status := Pending\<rparr>) \<and>
          (item_id (queue s ! k) \<noteq> item_id nextItem \<longrightarrow>
             queue (fire rnd (UploadResolved i R_rate_limit) s) ! k = queue s ! k))
     \<and> consecutiveRateLimitsRef (fire rnd (UploadResolved i R_rate_limit) s)
          = consecutiveRateLimitsRef s + 1
     \<and> consecutiveRateLimitsRef (fire rnd (UploadResolved i R_success) s) = 0
     \<and> (\<forall>es. (\<forall>x \<in> set es. rateLimitedOnly (snd x)) \<longrightarrow>
          map retryCount (queue (run es s)) = map retryCount (queue s))"
  using assms
  by (simp add: fire_rate_limit fire_success_counter run_retryCounts mapItem_nth)

theorem rate_limit_keeps_retryCount_witness:
  "mountedRef inFlightExample
   \<and> suspended inFlightExample ! 0 = AwaitUpload (exampleItem ''a'' Pending 0)
   \<and> queue (fire 0 (UploadResolved 0 R_rate_limit) inFlightExample)
       = [exampleItem ''a'' Pending 0]
   \<and> consecutiveRateLimitsRef (fire 0 (UploadResolved 0 R_rate_limit) inFlightExample) = 1
   \<and> consecutiveRateLimitsRef (fire 0 (UploadResolved 0 R_success) inFlightExample) = 0
   \<and> map retryCount (queue (run [(0, UploadResolved 0 R_rate_limit), (0, TimerFires 1),
         (0, UploadResolved 0 R_rate_limit), (0, TimerFires 2)] inFlightExample)) = [0]
   \<and> consecutiveRateLimitsRef (run [(0, UploadResolved 0 R_rate_limit), (0, TimerFires 1),
         (0, UploadResolved 0 R_rate_limit), (0, TimerFires 2)] inFlightExample) = 2"
proof -
  have h: "mountedRef inFlightExample" "0 < length (suspended inFlightExample)"
    "suspended inFlightExample ! 0 = AwaitUpload (exampleItem ''a'' Pending 0)"
    by (simp_all add: inFlightExample_eval initEngine_def)
  have q: "queue inFlightExample = [exampleItem ''a'' Uploading 0]"
    "consecutiveRateLimitsRef inFlightExample = 0"
    by (simp_all add: inFlightExample_eval initEngine_def)
  note t = rate_limit_keeps_retryCount [OF h, of 0]
  from t have len: "length (queue (fire 0 (UploadResolved 0 R_rate_limit) inFlightExample)) = 1"
    by (simp add: q)
  from t [THEN conjunct2, THEN conjunct1, rule_format, where k = 0]
  have "queue (fire 0 (UploadResolved 0 R_rate_limit) inFlightExample) ! 0
      = exampleItem ''a'' Pending 0"
    by (simp add: q exampleItem_def)
  with len have a: "queue (fire 0 (UploadResolved 0 R_rate_limit) inFlightExample)
      = [exampleItem ''a'' Pending 0]"
    by (cases "queue (fire 0 (UploadResolved 0 R_rate_limit) inFlightExample)") simp_all
  from t have b: "consecutiveRateLimitsRef (fire 0 (UploadResolved 0 R_rate_limit) inFlightExample) = 1"
    and c: "consecutiveRateLimitsRef (fire 0 (UploadResolved 0 R_success) inFlightExample) = 0"
    by (simp_all add: q)
  let ?es = "[(0::real, UploadResolved 0 R_rate_limit), (0, TimerFires 1),
         (0, UploadResolved 0 R_rate_limit), (0, TimerFires 2)]"
  have every: "\<forall>x \<in> set ?es. rateLimitedOnly (snd x)" by simp
  from t have "(\<forall>x \<in> set ?es. rateLimitedOnly (snd x)) \<longrightarrow>
      map retryCount (queue (run ?es inFlightExample)) = map retryCount (queue inFlightExample)"
    by blast
  from this every
  have "map retryCount (queue (run ?es inFlightExample)) = map retryCount (queue inFlightExample)"
    by (rule mp)
  then have d: "map retryCount (queue (run ?es inFlightExample)) = [0]"
    by (simp only: q) (simp add: exampleItem_def)
  have e: "consecutiveRateLimitsRef (run ?es inFlightExample) = 2"
    by (simp add: inFlightExample_eval engine_simps)
  from h a b c d e show ?thesis by simp
qed

section \<open>Items marked error have used up their retries\<close>

text \<open>
  The invariant under which the counts of \<^verbatim>\<open>uploadProgress\<close> partition the queue is kept by
  every event, the store included: it holds in every state that a hook reaches from its
  mount on a store whose \<^verbatim>\<open>error\<close> captures have used up their retries.
\<close>

lemma errorsExhausted_mapItem:
  assumes "errorsExhausted q"
    and "\<And>x. status (f x) = Error \<longrightarrow> retryCount (f x) \<ge> MAX_RETRIES"
  shows "errorsExhausted (mapItem i f q)"
  using assms by (auto simp: errorsExhausted_def mapItem_def)

lemma errorsExhausted_append:
  "errorsExhausted (q @ q') \<longleftrightarrow> errorsExhausted q \<and> errorsExhausted q'"
  by (auto simp: errorsExhausted_def)

lemma processNext_exhausted:
  "errorsExhausted (queue s) \<Longrightarrow> errorsExhausted (queue (processNext rnd s))"
  by (simp add: processNext_def Let_def errorsExhausted_mapItem split: option.splits)

lemma processNext_idb: "idb (processNext rnd s) = idb s"
  by (simp add: processNext_def Let_def split: option.splits)

lemma effects_exhausted:
  "errorsExhausted (queue s) \<Longrightarrow> errorsExhausted (queue (effects rnd s))"
  by (simp add: effects_def autoStart_def startProcessing_def Let_def processNext_exhausted)

lemma effects_idb: "idb (effects rnd s) = idb s"
  by (simp add: effects_def autoStart_def startProcessing_def Let_def processNext_idb)

lemma idb_set_values: "e \<in> set (idb_set k v db) \<Longrightarrow> e = (k, v) \<or> e \<in> set db"
  by (induction db) (auto split: if_splits)

lemma storeExhausted_save:
  assumes "storeExhausted db" "status c = Error \<longrightarrow> retryCount c \<ge> MAX_RETRIES"
  shows "storeExhausted (saveToOfflineQueue c db)"
  using assms
  by (auto simp: storeExhausted_def errorsExhausted_def saveToOfflineQueue_def
      dest!: idb_set_values)

lemma storeExhausted_remove:
  "storeExhausted db \<Longrightarrow> storeExhausted (removeFromOfflineQueue i db)"
  by (auto simp: storeExhausted_def errorsExhausted_def removeFromOfflineQueue_def idb_del_def)

lemma collectCaptures_values: "set (collectCaptures db ks) \<subseteq> set (map snd db)"
proof (induction ks)
  case Nil
  then show ?case by simp
next
  case (Cons k ks)
  show ?case
  proof (cases "idb_get k db")
    case None
    with Cons show ?thesis by simp
  next
    case (Some c)
    then have "(k, c) \<in> set db" by (simp add: idb_get_def map_of_SomeD)
    then have "c \<in> set (map snd db)" by force
    with Cons Some show ?thesis by simp
  qed
qed

lemma getOfflineQueue_exhausted: "storeExhausted db \<Longrightarrow> errorsExhausted (getOfflineQueue db)"
  using collectCaptures_values [of db "filter (\<lambda>k. prefix STORE_PREFIX k) (idb_keys db)"]
  by (auto simp: storeExhausted_def errorsExhausted_def getOfflineQueue_def Let_def)

lemma onError_exhausted:
  assumes "errorsExhausted (queue s)" "storeExhausted (idb s)"
  shows "errorsExhausted (queue (onError nextItem s))" "storeExhausted (idb (onError nextItem s))"
  using assms
  by (simp_all add: onError_def setTimeout_def Let_def errorsExhausted_mapItem
      storeExhausted_save)

lemma handler_exhausted:
  assumes "errorsExhausted (queue s)" "storeExhausted (idb s)"
  shows "errorsExhausted (queue (handler rnd e s)) \<and> storeExhausted (idb (handler rnd e s))"
proof (cases e)
  case (AddToQueue newId fname img meta)
  with assms show ?thesis
    by (simp add: addToQueue_def Let_def errorsExhausted_append) (simp add: errorsExhausted_def)
next
  case RetryFailed
  with assms show ?thesis
    by (auto simp: retryFailed_def retryFailedUpdater_def errorsExhausted_def)
next
  case ClearQueue
  with assms show ?thesis
    by (simp add: clearQueue_def clearTimeoutRef_def errorsExhausted_def split: option.splits)
next
  case LoadOfflineQueue
  with assms show ?thesis
    by (simp add: loadOfflineQueue_def Let_def errorsExhausted_append getOfflineQueue_exhausted)
next
  case Unmount
  with assms show ?thesis
    by (simp add: unmount_def clearTimeoutRef_def split: option.splits)
next
  case (BackoffElapsed i)
  with assms show ?thesis
    by (simp add: backoffElapsed_def takeSuspended_def Let_def split: suspension.splits)
next
  case (UploadResolved i result)
  have t: "errorsExhausted (queue (takeSuspended i s))" "storeExhausted (idb (takeSuspended i s))"
    using assms by (simp_all add: takeSuspended_def)
  from assms t onError_exhausted [OF t] UploadResolved show ?thesis
    by (cases result)
       (simp_all add: uploadResolved_def Let_def onSuccess_def onRateLimit_def setTimeout_def
          errorsExhausted_mapItem storeExhausted_remove split: suspension.splits)
next
  case (TimerFires h)
  with assms show ?thesis
    by (simp add: timerFires_def Let_def processNext_exhausted processNext_idb
        split: option.splits timerCallback.splits)
qed

lemma fire_exhausted:
  assumes "errorsExhausted (queue s)" "storeExhausted (idb s)"
  shows "errorsExhausted (queue (fire rnd e s))" "storeExhausted (idb (fire rnd e s))"
  using handler_exhausted [OF assms, of rnd e]
  by (simp_all add: fire_def effects_exhausted effects_idb)

lemma run_exhausted:
  "errorsExhausted (queue s) \<Longrightarrow> storeExhausted (idb s) \<Longrightarrow>
   errorsExhausted (queue (run es s))"
proof (induction es arbitrary: s)
  case Nil
  then show ?case by simp
next
  case (Cons x es)
  obtain rnd e where "x = (rnd, e)" by (cases x)
  with Cons fire_exhausted [of s rnd e] show ?case by simp
qed

lemma run_from_mount_exhausted:
  "storeExhausted db \<Longrightarrow> errorsExhausted (queue (run es (initEngine db)))"
  by (rule run_exhausted) (simp_all add: initEngine_def errorsExhausted_def)

section \<open>The retry budget\<close>

lemma distinct_same_id:
  assumes "distinct (map item_id q)" "x \<in> set q" "y \<in> set q" "item_id x = item_id y"
  shows "x = y"
proof -
  from assms(1) have "inj_on item_id (set q)" by (simp add: distinct_map)
  with assms(2-4) show ?thesis by (auto dest: inj_onD)
qed

lemma idb_get_del_other: "k \<noteq> k' \<Longrightarrow> idb_get k' (idb_del k db) = idb_get k' db"
  by (induction db) (auto simp: idb_get_def idb_del_def)

lemma idb_get_set_other: "k \<noteq> k' \<Longrightarrow> idb_get k' (idb_set k v db) = idb_get k' db"
  by (induction db) (auto simp: idb_get_def)

lemma persisted_remove:
  "item_id q \<noteq> i \<Longrightarrow> persisted (removeFromOfflineQueue i db) q = persisted db q"
  by (simp add: persisted_def removeFromOfflineQueue_def idb_get_del_other)

lemma persisted_save_other:
  "item_id q \<noteq> item_id c \<Longrightarrow> persisted (saveToOfflineQueue c db) q = persisted db q"
  by (simp add: persisted_def saveToOfflineQueue_def idb_get_set_other)

lemma persisted_save_same:
  "item_id q = item_id c \<Longrightarrow> status c = Error \<Longrightarrow> retryCount c = MAX_RETRIES \<Longrightarrow>
   persisted (saveToOfflineQueue c db) q"
  by (simp add: persisted_def saveToOfflineQueue_def idb_get_idb_set)

lemma retryInv_frame [simp]:
  "retryInv (s\<lparr>queueRef := x\<rparr>) = retryInv s"
  "retryInv (s\<lparr>isRateLimited := b\<rparr>) = retryInv s"
  "retryInv (s\<lparr>isUploading := b\<rparr>) = retryInv s"
  "retryInv (s\<lparr>processingRef := b\<rparr>) = retryInv s"
  "retryInv (s\<lparr>timers := ts\<rparr>) = retryInv s"
  by (simp_all add: retryInv_def)

lemma processNext_retryInv:
  assumes "mountedRef s" "suspended s = []" "queueRef s = queue s"
    and "distinct (map item_id (queue s))" "retryInv s"
  shows "retryInv (processNext rnd s)"
proof (cases "find eligible (queueRef s)")
  case None
  with assms show ?thesis by (simp add: processNext_def)
next
  case (Some nextItem)
  then have mem: "nextItem \<in> set (queue s)" and el: "eligible nextItem"
    using assms(3) by (auto simp: find_Some_iff)
  let ?q = "mapItem (item_id nextItem) (\<lambda>q. q\<lparr>status := Uploading\<rparr>) (queue s)"
  have same: "y = nextItem" if "y \<in> set (queue s)" "item_id y = item_id nextItem" for y
    using distinct_same_id [OF assms(4) that(1) mem that(2)] .
  have a: "\<forall>q \<in> set ?q. retryCount q \<le> MAX_RETRIES \<and>
        (status q = Error \<longleftrightarrow> retryCount q = MAX_RETRIES) \<and>
        (status q = Error \<longrightarrow> persisted (idb s) q)"
  proof
    fix x assume "x \<in> set ?q"
    then obtain y where y: "y \<in> set (queue s)"
      and x: "x = (if item_id y = item_id nextItem then y\<lparr>status := Uploading\<rparr> else y)"
      by (auto dest: mapItem_set)
    from assms(5) y have iy: "retryCount y \<le> MAX_RETRIES"
      "status y = Error \<longleftrightarrow> retryCount y = MAX_RETRIES"
      "status y = Error \<longrightarrow> persisted (idb s) y"
      by (auto simp: retryInv_def)
    show "retryCount x \<le> MAX_RETRIES \<and> (status x = Error \<longleftrightarrow> retryCount x = MAX_RETRIES) \<and>
        (status x = Error \<longrightarrow> persisted (idb s) x)"
    proof (cases "item_id y = item_id nextItem")
      case True
      with y have "y = nextItem" by (rule same)
      with el have "retryCount y < MAX_RETRIES" by (simp add: eligible_def)
      with True x show ?thesis by simp
    next
      case False
      with x iy show ?thesis by simp
    qed
  qed
  have b: "retryCount nextItem < MAX_RETRIES" using el by (simp add: eligible_def)
  have c: "item_id nextItem \<in> set (map item_id ?q)"
    using mem by (simp add: mapItem_ids) 
  have d: "\<forall>q \<in> set ?q. item_id q = item_id nextItem \<longrightarrow>
      retryCount q = retryCount nextItem \<and> status q = Uploading"
  proof (intro ballI impI)
    fix x assume "x \<in> set ?q" and ix: "item_id x = item_id nextItem"
    then obtain y where y: "y \<in> set (queue s)"
      and x: "x = (if item_id y = item_id nextItem then y\<lparr>status := Uploading\<rparr> else y)"
      by (auto dest: mapItem_set)
    from x ix have "item_id y = item_id nextItem" by (auto split: if_splits)
    with y have "y = nextItem" by (rule same)
    with x show "retryCount x = retryCount nextItem \<and> status x = Uploading" by simp
  qed
  from Some assms(1,2) a b c d show ?thesis
    by (simp add: processNext_def Let_def retryInv_def nextItemOf_def)
qed

lemma effects_retryInv:
  assumes "engineInv s" "retryInv s"
  shows "retryInv (effects rnd s)" "synced (effects rnd s)"
proof -
  show "synced (effects rnd s)"
    by (simp add: effects_def synced_def Let_def)
  show "retryInv (effects rnd s)"
  proof (cases "mountedRef s \<and> list_ex eligible (queue s) \<and> \<not> processingRef s \<and> \<not> isRateLimited s")
    case False
    with assms show ?thesis
      by (auto simp: effects_def autoStart_def Let_def)
  next
    case True
    let ?s = "s\<lparr>queueRef := queue s, processingRef := True\<rparr>"
    from True assms(1) have idle: "suspended s = []" by (simp add: engineInv_def)
    from assms(1) have d: "distinct (map item_id (queue s))" by (simp add: engineInv_def)
    from True idle d assms(2) have "retryInv (processNext rnd ?s)"
      by (intro processNext_retryInv) simp_all
    with True show ?thesis
      by (simp add: effects_def autoStart_def startProcessing_def Let_def)
  qed
qed

lemma addToQueue_retryInv:
  assumes "retryInv s" "newId \<notin> set (map item_id (queue s))"
  shows "retryInv (addToQueue newId fname img meta s)"
  using assms
  by (auto simp: retryInv_def addToQueue_def Let_def MAX_RETRIES_def)

lemma retryFailed_retryInv:
  assumes "retryInv s"
  shows "retryInv (retryFailed s)"
proof -
  have q: "x \<in> set (retryFailedUpdater (queue s)) \<Longrightarrow>
      \<exists>y \<in> set (queue s). x = (if status y = Error \<and> MAX_RETRIES \<le> retryCount y
         then y\<lparr>status := Pending, retryCount := 0\<rparr> else y)" for x
    by (auto simp: retryFailedUpdater_def)
  have a: "\<forall>x \<in> set (retryFailedUpdater (queue s)).
        retryCount x \<le> MAX_RETRIES \<and>
        (status x = Error \<longleftrightarrow> retryCount x = MAX_RETRIES) \<and>
        (status x = Error \<longrightarrow> persisted (idb s) x)"
  proof
    fix x assume "x \<in> set (retryFailedUpdater (queue s))"
    then obtain y where y: "y \<in> set (queue s)"
      and x: "x = (if status y = Error \<and> MAX_RETRIES \<le> retryCount y
         then y\<lparr>status := Pending, retryCount := 0\<rparr> else y)"
      using q by blast
    from assms y have "retryCount y \<le> MAX_RETRIES"
      "status y = Error \<longleftrightarrow> retryCount y = MAX_RETRIES"
      "status y = Error \<longrightarrow> persisted (idb s) y"
      by (auto simp: retryInv_def)
    with x show "retryCount x \<le> MAX_RETRIES \<and>
        (status x = Error \<longleftrightarrow> retryCount x = MAX_RETRIES) \<and>
        (status x = Error \<longrightarrow> persisted (idb s) x)"
      by (auto simp: MAX_RETRIES_def)
  qed
  have c: "\<forall>c \<in> set (suspended s). \<forall>x \<in> set (retryFailedUpdater (queue s)).
      mountedRef s \<longrightarrow> item_id x = item_id (nextItemOf c) \<longrightarrow>
      retryCount x = retryCount (nextItemOf c) \<and> status x = Uploading"
  proof (intro ballI impI)
    fix c x assume c: "c \<in> set (suspended s)" and "x \<in> set (retryFailedUpdater (queue s))"
      and m: "mountedRef s" and ix: "item_id x = item_id (nextItemOf c)"
    then obtain y where y: "y \<in> set (queue s)"
      and x: "x = (if status y = Error \<and> MAX_RETRIES \<le> retryCount y
         then y\<lparr>status := Pending, retryCount := 0\<rparr> else y)"
      using q by blast
    from x ix have "item_id y = item_id (nextItemOf c)" by (auto split: if_splits)
    with assms c y m have "retryCount y = retryCount (nextItemOf c)" "status y = Uploading"
      by (auto simp: retryInv_def)
    with x show "retryCount x = retryCount (nextItemOf c) \<and> status x = Uploading" by simp
  qed
  from assms a c show ?thesis
    by (simp add: retryInv_def retryFailed_def retryFailedUpdater_ids)
qed

lemma loadOfflineQueue_retryInv:
  assumes "retryInv s" "distinct (map item_id (queue s @ getOfflineQueue (idb s)))"
    and "\<forall>c \<in> set (getOfflineQueue (idb s)).
        status c = Error \<and> retryCount c = MAX_RETRIES \<and> persisted (idb s) c"
  shows "retryInv (loadOfflineQueue s)"
proof -
  have disj: "item_id x \<noteq> item_id y"
    if "x \<in> set (getOfflineQueue (idb s))" "y \<in> set (queue s)" for x y
    using assms(2) that by auto
  have c: "\<forall>c \<in> set (suspended s). \<forall>x \<in> set (getOfflineQueue (idb s)).
      mountedRef s \<longrightarrow> item_id x \<noteq> item_id (nextItemOf c)"
  proof (intro ballI impI)
    fix c x assume "c \<in> set (suspended s)" "x \<in> set (getOfflineQueue (idb s))" "mountedRef s"
    with assms(1) obtain y where "y \<in> set (queue s)" "item_id y = item_id (nextItemOf c)"
      by (auto simp: retryInv_def)
    with disj [OF \<open>x \<in> set (getOfflineQueue (idb s))\<close>] show "item_id x \<noteq> item_id (nextItemOf c)"
      by metis
  qed
  from assms(1,3) c show ?thesis
    by (auto simp: retryInv_def loadOfflineQueue_def Let_def)
qed

lemma unmount_retryInv: "retryInv s \<Longrightarrow> retryInv (unmount s)"
  by (simp add: retryInv_def unmount_def clearTimeoutRef_def split: option.splits)

lemma clearQueue_idle_retryInv: "suspended s = [] \<Longrightarrow> retryInv (clearQueue s)"
  by (simp add: retryInv_def clearQueue_def clearTimeoutRef_def split: option.splits)

lemma backoffElapsed_retryInv:
  assumes "engineInv s" "retryInv s"
  shows "retryInv (backoffElapsed i s)"
proof (cases "i < length (suspended s)")
  case False
  with assms show ?thesis by (simp add: backoffElapsed_def)
next
  case True
  note one = single_suspension [OF assms(1) True]
  show ?thesis
  proof (cases "suspended s ! 0")
    case (AwaitUpload nextItem)
    with assms True one(1) show ?thesis by (simp add: backoffElapsed_def)
  next
    case (AwaitBackoff nextItem delay)
    with one(2) have susp: "suspended s = [AwaitBackoff nextItem delay]" by simp
    with assms(2) one(1) show ?thesis
      by (simp add: backoffElapsed_def takeSuspended_def retryInv_def Let_def nextItemOf_def)
  qed
qed

lemma resolved_queue_retryInv:
  assumes "retryInv s" "mountedRef s" "suspended s = [AwaitUpload nextItem]"
    and f_rc: "\<And>q. retryCount q = retryCount nextItem \<Longrightarrow>
        retryCount (f q) \<le> MAX_RETRIES \<and> (status (f q) = Error \<longleftrightarrow> retryCount (f q) = MAX_RETRIES)"
    and f_id: "\<And>q. item_id (f q) = item_id q"
    and db: "\<And>q. item_id q \<noteq> item_id nextItem \<Longrightarrow> persisted db' q = persisted (idb s) q"
    and db_self: "\<And>q. item_id q = item_id nextItem \<Longrightarrow> status (f q) = Error \<Longrightarrow>
        persisted db' (f q)"
  shows "\<forall>x \<in> set (mapItem (item_id nextItem) f (queue s)).
        retryCount x \<le> MAX_RETRIES \<and>
        (status x = Error \<longleftrightarrow> retryCount x = MAX_RETRIES) \<and>
        (status x = Error \<longrightarrow> persisted db' x)"
proof
  fix x assume "x \<in> set (mapItem (item_id nextItem) f (queue s))"
  then obtain y where y: "y \<in> set (queue s)"
    and x: "x = (if item_id y = item_id nextItem then f y else y)"
    by (auto dest: mapItem_set)
  from assms(1) y have iy: "retryCount y \<le> MAX_RETRIES"
    "status y = Error \<longleftrightarrow> retryCount y = MAX_RETRIES"
    "status y = Error \<longrightarrow> persisted (idb s) y"
    by (auto simp: retryInv_def)
  show "retryCount x \<le> MAX_RETRIES \<and> (status x = Error \<longleftrightarrow> retryCount x = MAX_RETRIES) \<and>
        (status x = Error \<longrightarrow> persisted db' x)"
  proof (cases "item_id y = item_id nextItem")
    case True
    with assms(1-3) y have "retryCount y = retryCount nextItem"
      by (auto simp: retryInv_def nextItemOf_def)
    from f_rc [OF this] db_self [OF True] True x show ?thesis by simp
  next
    case False
    with x iy db [OF False] show ?thesis by simp
  qed
qed

lemma in_flight_budget:
  assumes "retryInv s" "suspended s = [AwaitUpload nextItem]"
  shows "retryCount nextItem < MAX_RETRIES"
  using assms by (simp add: retryInv_def nextItemOf_def)

lemma onSuccess_retryInv:
  assumes "retryInv s" "mountedRef s" "suspended s = [AwaitUpload nextItem]"
  shows "retryInv (onSuccess nextItem (takeSuspended 0 s))"
proof -
  let ?s' = "onSuccess nextItem (takeSuspended 0 s)"
  note b = in_flight_budget [OF assms(1,3)]
  have q: "\<forall>x \<in> set (mapItem (item_id nextItem) (\<lambda>q. q\<lparr>status := Success\<rparr>) (queue s)).
        retryCount x \<le> MAX_RETRIES \<and>
        (status x = Error \<longleftrightarrow> retryCount x = MAX_RETRIES) \<and>
        (status x = Error \<longrightarrow> persisted (removeFromOfflineQueue (item_id nextItem) (idb s)) x)"
    using b by (intro resolved_queue_retryInv [OF assms]) (simp_all add: persisted_remove)
  have e: "queue ?s' = mapItem (item_id nextItem) (\<lambda>q. q\<lparr>status := Success\<rparr>) (queue s)"
    "idb ?s' = removeFromOfflineQueue (item_id nextItem) (idb s)" "suspended ?s' = []"
    using assms(3) by (simp_all add: onSuccess_def takeSuspended_def setTimeout_def Let_def)
  from q show ?thesis by (simp add: retryInv_def e)
qed

lemma onRateLimit_retryInv:
  assumes "retryInv s" "mountedRef s" "suspended s = [AwaitUpload nextItem]"
  shows "retryInv (onRateLimit nextItem rnd (takeSuspended 0 s))"
proof -
  let ?s' = "onRateLimit nextItem rnd (takeSuspended 0 s)"
  note b = in_flight_budget [OF assms(1,3)]
  have q: "\<forall>x \<in> set (mapItem (item_id nextItem) (\<lambda>q. q\<lparr>status := Pending\<rparr>) (queue s)).
        retryCount x \<le> MAX_RETRIES \<and>
        (status x = Error \<longleftrightarrow> retryCount x = MAX_RETRIES) \<and>
        (status x = Error \<longrightarrow> persisted (idb s) x)"
    using b by (intro resolved_queue_retryInv [OF assms]) simp_all
  have e: "queue ?s' = mapItem (item_id nextItem) (\<lambda>q. q\<lparr>status := Pending\<rparr>) (queue s)"
    "idb ?s' = idb s" "suspended ?s' = []"
    using assms(3) by (simp_all add: onRateLimit_def takeSuspended_def setTimeout_def Let_def)
  from q show ?thesis by (simp add: retryInv_def e)
qed

lemma onError_retryInv:
  assumes "retryInv s" "mountedRef s" "suspended s = [AwaitUpload nextItem]"
  shows "retryInv (onError nextItem (takeSuspended 0 s))"
proof -
  let ?s' = "onError nextItem (takeSuspended 0 s)"
  note b = in_flight_budget [OF assms(1,3)]
  define final where "final \<longleftrightarrow> retryCount nextItem + 1 \<ge> MAX_RETRIES"
  define f :: "captureItem \<Rightarrow> captureItem" where "f = (\<lambda>q. q\<lparr>status := (if final then Error else Pending),
      retryCount := retryCount nextItem + 1,
      errorMessage := Some (if final then ''Max retries exceeded''
         else ''Upload failed, retry '' @ showNat (retryCount nextItem + 1) @ ''/''
              @ showNat MAX_RETRIES)\<rparr>)"
  define db' where "db' = (if final
      then saveToOfflineQueue (nextItem\<lparr>status := Error, retryCount := retryCount nextItem + 1\<rparr>) (idb s)
      else idb s)"
  have fin: "final \<longleftrightarrow> retryCount nextItem + 1 = MAX_RETRIES"
    using b by (auto simp: final_def)
  have q: "\<forall>x \<in> set (mapItem (item_id nextItem) f (queue s)).
        retryCount x \<le> MAX_RETRIES \<and>
        (status x = Error \<longleftrightarrow> retryCount x = MAX_RETRIES) \<and>
        (status x = Error \<longrightarrow> persisted db' x)"
  proof (intro resolved_queue_retryInv [OF assms])
    fix q :: captureItem
    show "retryCount (f q) \<le> MAX_RETRIES \<and> (status (f q) = Error \<longleftrightarrow> retryCount (f q) = MAX_RETRIES)"
      using b fin by (simp add: f_def)
    show "item_id (f q) = item_id q" by (simp add: f_def)
    show "persisted db' q = persisted (idb s) q" if "item_id q \<noteq> item_id nextItem"
      using that by (simp add: db'_def persisted_save_other)
    show "persisted db' (f q)" if "item_id q = item_id nextItem" "status (f q) = Error"
    proof -
      from that(2) have "final" by (simp add: f_def split: if_splits)
      with that(1) fin show ?thesis
        by (simp add: db'_def f_def persisted_save_same)
    qed
  qed
  have e: "queue ?s' = mapItem (item_id nextItem) f (queue s)" "idb ?s' = db'" "suspended ?s' = []"
    using assms(3)
    by (simp_all add: onError_def takeSuspended_def setTimeout_def Let_def f_def db'_def final_def)
  from q show ?thesis by (simp add: retryInv_def e)
qed

lemma uploadResolved_retryInv:
  assumes "engineInv s" "retryInv s"
  shows "retryInv (uploadResolved i result rnd s)"
proof (cases "i < length (suspended s)")
  case False
  with assms show ?thesis by (simp add: uploadResolved_def)
next
  case True
  note one = single_suspension [OF assms(1) True]
  show ?thesis
  proof (cases "suspended s ! 0")
    case (AwaitBackoff nextItem delay)
    with assms True one(1) show ?thesis by (simp add: uploadResolved_def)
  next
    case (AwaitUpload nextItem)
    with one(2) have susp: "suspended s = [AwaitUpload nextItem]" by simp
    show ?thesis
    proof (cases "mountedRef s")
      case False
      with assms(2) susp one(1) show ?thesis
        by (simp add: uploadResolved_def takeSuspended_def retryInv_def Let_def)
    next
      case True
      have m: "mountedRef (takeSuspended 0 s)" using True by (simp add: takeSuspended_def)
      from onSuccess_retryInv [OF assms(2) True susp] onRateLimit_retryInv [OF assms(2) True susp]
        onError_retryInv [OF assms(2) True susp] susp one(1) m
      show ?thesis
        by (cases result) (simp_all add: uploadResolved_def Let_def)
    qed
  qed
qed

lemma timerFires_retryInv:
  assumes "engineInv s" "retryInv s" "synced s"
  shows "retryInv (timerFires h rnd s)"
proof (cases "find (\<lambda>t. fst t = h) (timers s)")
  case None
  with assms show ?thesis by (simp add: timerFires_def)
next
  case (Some t)
  then have mem: "t \<in> set (timers s)" by (auto simp: find_Some_iff)
  from mem assms(1) have susp: "suspended s = []"
    by (cases "timers s"; auto simp: engineInv_def)
  let ?s1 = "s\<lparr>timers := filter (\<lambda>t. fst t \<noteq> h) (timers s)\<rparr>"
  show ?thesis
  proof (cases "mountedRef s")
    case False
    with assms(2) Some show ?thesis
      by (simp add: timerFires_def Let_def split: timerCallback.splits)
  next
    case True
    from assms(1) have d: "distinct (map item_id (queue s))" by (simp add: engineInv_def)
    from assms(3) True have qr: "queueRef s = queue s" by (simp add: synced_def)
    have a: "retryInv (processNext rnd ?s1)"
      using True susp d qr assms(2) by (intro processNext_retryInv) simp_all
    have b: "retryInv (processNext rnd (?s1\<lparr>isRateLimited := False\<rparr>))"
      using True susp d qr assms(2) by (intro processNext_retryInv) simp_all
    from a b True Some show ?thesis
      by (simp add: timerFires_def Let_def split: timerCallback.splits)
  qed
qed

lemma initEngine_retryInv: "retryInv (initEngine db)" "synced (initEngine db)"
  by (simp_all add: retryInv_def synced_def initEngine_def)

lemma reachable_retryInv: "reachable s \<Longrightarrow> retryInv s \<and> synced s"
proof (induction rule: reachable.induct)
  case (start db)
  show ?case by (simp add: initEngine_retryInv)
next
  case (rehydrate s rnd)
  then have "\<forall>c \<in> set (getOfflineQueue (idb s)). status c \<noteq> Uploading" by auto
  with rehydrate have "engineInv (loadOfflineQueue s)"
    by (intro loadOfflineQueue_inv reachable_inv)
  moreover from rehydrate have "retryInv (loadOfflineQueue s)"
    by (intro loadOfflineQueue_retryInv) simp_all
  ultimately show ?case by (simp add: fire_def effects_retryInv)
next
  case (enqueue s newId rnd fname img meta)
  then have "engineInv (addToQueue newId fname img meta s)"
    by (intro addToQueue_inv reachable_inv)
  moreover from enqueue have "retryInv (addToQueue newId fname img meta s)"
    by (intro addToQueue_retryInv) simp_all
  ultimately show ?case by (simp add: fire_def effects_retryInv)
next
  case (retry s rnd)
  then have "engineInv (retryFailed s)" by (intro retryFailed_inv reachable_inv)
  moreover from retry have "retryInv (retryFailed s)" by (intro retryFailed_retryInv) simp
  ultimately show ?case by (simp add: fire_def effects_retryInv)
next
  case (backoff_expiry s rnd i)
  then have e: "engineInv s" by (intro reachable_inv)
  then have "engineInv (backoffElapsed i s)" by (rule backoffElapsed_inv)
  moreover from backoff_expiry e have "retryInv (backoffElapsed i s)"
    by (intro backoffElapsed_retryInv) simp_all
  ultimately show ?case by (simp add: fire_def effects_retryInv)
next
  case (tick_completion s rnd i result)
  then have e: "engineInv s" by (intro reachable_inv)
  then have "engineInv (uploadResolved i result rnd s)" by (rule uploadResolved_inv)
  moreover from tick_completion e have "retryInv (uploadResolved i result rnd s)"
    by (intro uploadResolved_retryInv) simp_all
  ultimately show ?case by (simp add: fire_def effects_retryInv)
next
  case (timer_expiry s rnd h)
  then have e: "engineInv s" by (intro reachable_inv)
  then have "engineInv (timerFires h rnd s)" by (rule timerFires_inv)
  moreover from timer_expiry e have "retryInv (timerFires h rnd s)"
    by (intro timerFires_retryInv) simp_all
  ultimately show ?case by (simp add: fire_def effects_retryInv)
next
  case (teardown s rnd)
  then have "engineInv (unmount s)" by (intro unmount_inv reachable_inv)
  moreover from teardown have "retryInv (unmount s)" by (intro unmount_retryInv) simp
  ultimately show ?case by (simp add: fire_def effects_retryInv)
next
  case (clear_idle s rnd)
  then have "engineInv (clearQueue s)" by (intro clearQueue_idle_inv reachable_inv)
  moreover from clear_idle have "retryInv (clearQueue s)" by (intro clearQueue_idle_retryInv)
  ultimately show ?case by (simp add: fire_def effects_retryInv)
qed

lemma error_outcome_fire:
  assumes "engineInv s" "retryInv s" "mountedRef s" "i < length (suspended s)"
    and "suspended s ! i = AwaitUpload nextItem"
  shows "length (queue (fire rnd (UploadResolved i R_error) s)) = length (queue s)"
    and "\<forall>k < length (queue s).
          (item_id (queue s ! k) = item_id nextItem \<longrightarrow>
             retryCount (queue (fire rnd (UploadResolved i R_error) s) ! k)
               = retryCount (queue s ! k) + 1 \<and>
             status (queue (fire rnd (UploadResolved i R_error) s) ! k)
               = (if retryCount (queue s ! k) + 1 = MAX_RETRIES then Error else Pending)) \<and>
          (item_id (queue s ! k) \<noteq> item_id nextItem \<longrightarrow>
             queue (fire rnd (UploadResolved i R_error) s) ! k = queue s ! k)"
    and "idb (fire rnd (UploadResolved i R_error) s)
          = (if retryCount nextItem + 1 = MAX_RETRIES
             then saveToOfflineQueue (nextItem\<lparr>status := Error, retryCount := MAX_RETRIES\<rparr>) (idb s)
             else idb s)"
proof -
  note one = single_suspension [OF assms(1,4)]
  from one(1,2) assms(5) have susp: "suspended s = [AwaitUpload nextItem]" by simp
  note b = in_flight_budget [OF assms(2) susp]
  let ?h = "uploadResolved i R_error rnd s"
  have h: "?h = onError nextItem (takeSuspended 0 s)"
    using assms(3) susp one(1) by (simp add: uploadResolved_def takeSuspended_def Let_def)
  have p: "processingRef ?h" "mountedRef ?h"
    using one(4) assms(3) by (simp_all add: h onError_def takeSuspended_def setTimeout_def Let_def)
  have eff: "queue (effects rnd ?h) = queue ?h" "idb (effects rnd ?h) = idb ?h"
    using p by (simp_all add: effects_def autoStart_def Let_def)
  have fq: "queue (fire rnd (UploadResolved i R_error) s) = queue ?h"
    "idb (fire rnd (UploadResolved i R_error) s) = idb ?h"
    by (simp_all add: fire_def eff)
  have snap: "retryCount (queue s ! k) = retryCount nextItem"
    if "k < length (queue s)" "item_id (queue s ! k) = item_id nextItem" for k
    using assms(2,3) susp that by (auto simp: retryInv_def nextItemOf_def)
  show "length (queue (fire rnd (UploadResolved i R_error) s)) = length (queue s)"
    by (simp add: fq h onError_def takeSuspended_def setTimeout_def Let_def)
  show "\<forall>k < length (queue s).
          (item_id (queue s ! k) = item_id nextItem \<longrightarrow>
             retryCount (queue (fire rnd (UploadResolved i R_error) s) ! k)
               = retryCount (queue s ! k) + 1 \<and>
             status (queue (fire rnd (UploadResolved i R_error) s) ! k)
               = (if retryCount (queue s ! k) + 1 = MAX_RETRIES then Error else Pending)) \<and>
          (item_id (queue s ! k) \<noteq> item_id nextItem \<longrightarrow>
             queue (fire rnd (UploadResolved i R_error) s) ! k = queue s ! k)"
  proof (intro allI impI conjI)
    fix k assume k: "k < length (queue s)" and ik: "item_id (queue s ! k) = item_id nextItem"
    note sn = snap [OF k ik]
    from k ik show "retryCount (queue (fire rnd (UploadResolved i R_error) s) ! k)
               = retryCount (queue s ! k) + 1"
      by (simp add: fq h onError_def takeSuspended_def setTimeout_def Let_def
          mapItem_nth sn)
    from k ik b show "status (queue (fire rnd (UploadResolved i R_error) s) ! k)
               = (if retryCount (queue s ! k) + 1 = MAX_RETRIES then Error else Pending)"
      by (simp add: fq h onError_def takeSuspended_def setTimeout_def Let_def
          mapItem_nth sn)
  next
    fix k assume "k < length (queue s)" "item_id (queue s ! k) \<noteq> item_id nextItem"
    then show "queue (fire rnd (UploadResolved i R_error) s) ! k = queue s ! k"
      by (simp add: fq h onError_def takeSuspended_def setTimeout_def Let_def
          mapItem_nth)
  qed
  show "idb (fire rnd (UploadResolved i R_error) s)
          = (if retryCount nextItem + 1 = MAX_RETRIES
             then saveToOfflineQueue (nextItem\<lparr>status := Error, retryCount := MAX_RETRIES\<rparr>) (idb s)
             else idb s)"
    using b by (auto simp: fq h onError_def takeSuspended_def setTimeout_def Let_def)
qed

lemma map_eq_nth: "map f xs = map f ys \<Longrightarrow> k < length ys \<Longrightarrow> f (xs ! k) = f (ys ! k)"
  by (metis length_map nth_map)

lemma processNext_ids: "map item_id (queue (processNext rnd s)) = map item_id (queue s)"
  by (simp add: processNext_def Let_def mapItem_ids split: option.splits)

lemma effects_ids: "map item_id (queue (effects rnd s)) = map item_id (queue s)"
  by (simp add: effects_def autoStart_def startProcessing_def Let_def processNext_ids)

lemma effects_length: "length (queue (effects rnd s)) = length (queue s)"
  using effects_ids [of rnd s] by (metis length_map)

lemma handler_retryCount_step:
  assumes "engineInv s" "retryInv s" "synced s" "deliveryEvent e s" "k < length (queue s)"
  shows "k < length (queue (handler rnd e s))
     \<and> item_id (queue (handler rnd e s) ! k) = item_id (queue s ! k)
     \<and> retryCount (queue (handler rnd e s) ! k)
         = retryCount (queue s ! k) + (if errorOutcomeFor (item_id (queue s ! k)) e s then 1 else 0)"
proof (cases e)
  case (AddToQueue newId fname img meta)
  with assms(5) show ?thesis
    by (simp add: addToQueue_def Let_def nth_append errorOutcomeFor_def)
next
  case Unmount
  with assms(5) show ?thesis
    by (simp add: unmount_def errorOutcomeFor_def)
next
  case (BackoffElapsed i)
  with assms(5) show ?thesis
    by (simp add: backoffElapsed_def takeSuspended_def Let_def errorOutcomeFor_def
        split: suspension.splits)
next
  case (TimerFires h)
  have a: "map item_id (queue (timerFires h rnd s)) = map item_id (queue s)"
    by (simp add: timerFires_def Let_def processNext_ids split: option.splits timerCallback.splits)
  have b: "map retryCount (queue (timerFires h rnd s)) = map retryCount (queue s)"
    by (simp add: timerFires_def Let_def processNext_retryCounts
        split: option.splits timerCallback.splits)
  from a have "length (queue (timerFires h rnd s)) = length (queue s)" by (metis length_map)
  with map_eq_nth [OF a assms(5)] map_eq_nth [OF b assms(5)] assms(5) TimerFires show ?thesis
    by (simp add: errorOutcomeFor_def)
next
  case (UploadResolved i result)
  show ?thesis
  proof (cases "mountedRef s \<and> i < length (suspended s) \<and> (\<exists>n. suspended s ! i = AwaitUpload n)")
    case False
    then have "uploadResolved i result rnd s = s \<or> queue (uploadResolved i result rnd s) = queue s"
      by (auto simp: uploadResolved_def takeSuspended_def Let_def split: suspension.splits)
    then have "queue (uploadResolved i result rnd s) = queue s" by auto
    moreover from False have "\<not> errorOutcomeFor (item_id (queue s ! k)) e s"
      using UploadResolved by (auto simp: errorOutcomeFor_def split: suspension.splits)
    ultimately show ?thesis using assms(5) UploadResolved by simp
  next
    case True
    then obtain nextItem where live: "mountedRef s" "i < length (suspended s)"
      "suspended s ! i = AwaitUpload nextItem" by blast
    note one = single_suspension [OF assms(1) live(2)]
    from one(1,2) live(3) have susp: "suspended s = [AwaitUpload nextItem]" by simp
    show ?thesis
    proof (cases result)
      case R_success
      with live assms(5) UploadResolved one(1) show ?thesis
        by (simp add: uploadResolved_def takeSuspended_def onSuccess_def setTimeout_def Let_def
            mapItem_nth errorOutcomeFor_def)
    next
      case R_rate_limit
      with live assms(5) UploadResolved one(1) show ?thesis
        by (simp add: uploadResolved_def takeSuspended_def onRateLimit_def setTimeout_def Let_def
            mapItem_nth errorOutcomeFor_def)
    next
      case R_error
      have snap: "item_id (queue s ! k) = item_id nextItem \<Longrightarrow>
          retryCount (queue s ! k) = retryCount nextItem"
        using assms(2,5) live(1) susp by (auto simp: retryInv_def nextItemOf_def)
      from R_error live assms(5) UploadResolved one(1) snap show ?thesis
        by (auto simp: uploadResolved_def takeSuspended_def onError_def setTimeout_def Let_def
            mapItem_nth errorOutcomeFor_def)
    qed
  qed
qed (use assms(4) in simp_all)

lemma fire_retryCount_step:
  assumes "engineInv s" "retryInv s" "synced s" "deliveryEvent e s" "k < length (queue s)"
  shows "k < length (queue (fire rnd e s))"
    and "item_id (queue (fire rnd e s) ! k) = item_id (queue s ! k)"
    and "retryCount (queue (fire rnd e s) ! k)
         = retryCount (queue s ! k) + (if errorOutcomeFor (item_id (queue s ! k)) e s then 1 else 0)"
proof -
  note h = handler_retryCount_step [OF assms, of rnd]
  from h have k: "k < length (queue (handler rnd e s))" by simp
  then show "k < length (queue (fire rnd e s))" by (simp add: fire_def effects_length)
  from map_eq_nth [OF effects_ids k, of rnd] h
  show "item_id (queue (fire rnd e s) ! k) = item_id (queue s ! k)" by (simp add: fire_def)
  from map_eq_nth [OF effects_retryCounts k, of rnd] h
  show "retryCount (queue (fire rnd e s) ! k)
         = retryCount (queue s ! k) + (if errorOutcomeFor (item_id (queue s ! k)) e s then 1 else 0)"
    by (simp add: fire_def)
qed

lemma deliveryEvent_reachable: "reachable s \<Longrightarrow> deliveryEvent e s \<Longrightarrow> reachable (fire rnd e s)"
  by (cases e) (auto intro: reachable.intros)

lemma deliveryRun_reachable: "reachable s \<Longrightarrow> deliveryRun es s \<Longrightarrow> reachable (run es s)"
proof (induction es arbitrary: s)
  case Nil
  then show ?case by simp
next
  case (Cons x es)
  obtain rnd e where "x = (rnd, e)" by (cases x)
  with Cons deliveryEvent_reachable [of s e rnd] show ?case by simp
qed

lemma run_retryCount:
  assumes "reachable s" "deliveryRun es s" "k < length (queue s)"
  shows "k < length (queue (run es s))
     \<and> item_id (queue (run es s) ! k) = item_id (queue s ! k)
     \<and> retryCount (queue (run es s) ! k)
         = retryCount (queue s ! k) + errorOutcomes (item_id (queue s ! k)) es s"
  using assms
proof (induction es arbitrary: s)
  case Nil
  then show ?case by simp
next
  case (Cons x es)
  obtain rnd e where x: "x = (rnd, e)" by (cases x)
  with Cons.prems have d: "deliveryEvent e s" and r: "deliveryRun es (fire rnd e s)" by simp_all
  from Cons.prems(1) have inv: "engineInv s" "retryInv s" "synced s"
    using reachable_inv reachable_retryInv by auto
  note st = fire_retryCount_step [OF inv d Cons.prems(3), of rnd]
  from Cons.prems(1) d have "reachable (fire rnd e s)" by (rule deliveryEvent_reachable)
  from Cons.IH [OF this r st(1)] st(2,3) x show ?case by simp
qed

text \<open>
  The retry budget in the reachable states. With an attempt in flight on a mounted hook, a
  recoverable-error outcome adds exactly 1 to the retry count of the attempted item and
  leaves the other items as they are; the item becomes \<^verbatim>\<open>error\<close> exactly when the new count
  is \<open>MAX_RETRIES = 5\<close> and \<^verbatim>\<open>pending\<close> otherwise; and exactly then the store is written:
  the snapshot \<^verbatim>\<open>nextItem\<close> with the status \<^verbatim>\<open>error\<close> and the new count is saved under the
  key of the item. No item has more than five retries, and an item is \<^verbatim>\<open>error\<close> with a
  persisted capture if and only if its retry count is 5. Over a run of the delivery, which
  has no \<^verbatim>\<open>retryFailed\<close>, the retry count of an item grows by the number of
  recoverable-error outcomes that the item receives, so an item that starts with no retry
  is \<^verbatim>\<open>error\<close> with a persisted capture if and only if it has received exactly five of
  them. After \<^verbatim>\<open>retryFailed\<close> the count starts again: an item that has received five
  such outcomes is \<^verbatim>\<open>pending\<close> with no retry, and its capture is still in the store.
\<close>

lemma error_outcomes_exhaust_retries:
  assumes "reachable s"
  shows "MAX_RETRIES = 5
     \<and> (\<forall>i nextItem rnd.
          mountedRef s \<and> i < length (suspended s) \<and> suspended s ! i = AwaitUpload nextItem \<longrightarrow>
          length (queue (fire rnd (UploadResolved i R_error) s)) = length (queue s) \<and>
          (\<forall>k < length (queue s).
             (item_id (queue s ! k) = item_id nextItem \<longrightarrow>
                retryCount (queue (fire rnd (UploadResolved i R_error) s) ! k)
                  = retryCount (queue s ! k) + 1 \<and>
                status (queue (fire rnd (UploadResolved i R_error) s) ! k)
                  = (if retryCount (queue s ! k) + 1 = MAX_RETRIES then Error else Pending)) \<and>
             (item_id (queue s ! k) \<noteq> item_id nextItem \<longrightarrow>
                queue (fire rnd (UploadResolved i R_error) s) ! k = queue s ! k)) \<and>
          idb (fire rnd (UploadResolved i R_error) s)
            = (if retryCount nextItem + 1 = MAX_RETRIES
               then saveToOfflineQueue (nextItem\<lparr>status := Error, retryCount := MAX_RETRIES\<rparr>)
                      (idb s)
               else idb s))
     \<and> (\<forall>q \<in> set (queue s).
          retryCount q \<le> MAX_RETRIES \<and>
          ((status q = Error \<and> persisted (idb s) q) \<longleftrightarrow> retryCount q = MAX_RETRIES))
     \<and> (\<forall>es k. deliveryRun es s \<and> k < length (queue s) \<longrightarrow>
          retryCount (queue (run es s) ! k)
            = retryCount (queue s ! k) + errorOutcomes (item_id (queue s ! k)) es s \<and>
          (retryCount (queue s ! k) = 0 \<longrightarrow>
             ((status (queue (run es s) ! k) = Error \<and>
               persisted (idb (run es s)) (queue (run es s) ! k))
              \<longleftrightarrow> errorOutcomes (item_id (queue s ! k)) es s = MAX_RETRIES)))"
proof (intro conjI allI impI ballI)
  show "MAX_RETRIES = 5" by (simp add: MAX_RETRIES_def)
  from assms have inv: "engineInv s" "retryInv s"
    using reachable_inv reachable_retryInv by auto
  {
    fix i nextItem rnd
    assume live: "mountedRef s \<and> i < length (suspended s) \<and> suspended s ! i = AwaitUpload nextItem"
    then have l: "mountedRef s" "i < length (suspended s)" "suspended s ! i = AwaitUpload nextItem"
      by simp_all
    note e = error_outcome_fire [OF inv l, of rnd]
    show "length (queue (fire rnd (UploadResolved i R_error) s)) = length (queue s)"
      by (rule e(1))
    show "idb (fire rnd (UploadResolved i R_error) s)
            = (if retryCount nextItem + 1 = MAX_RETRIES
               then saveToOfflineQueue (nextItem\<lparr>status := Error, retryCount := MAX_RETRIES\<rparr>)
                      (idb s)
               else idb s)"
      by (rule e(3))
    fix k assume k: "k < length (queue s)"
    {
      assume ik: "item_id (queue s ! k) = item_id nextItem"
      from e(2) k ik show "retryCount (queue (fire rnd (UploadResolved i R_error) s) ! k)
                  = retryCount (queue s ! k) + 1"
        by blast
      from e(2) k ik show "status (queue (fire rnd (UploadResolved i R_error) s) ! k)
                  = (if retryCount (queue s ! k) + 1 = MAX_RETRIES then Error else Pending)"
        by blast
    }
    {
      assume "item_id (queue s ! k) \<noteq> item_id nextItem"
      with e(2) k show "queue (fire rnd (UploadResolved i R_error) s) ! k = queue s ! k"
        by blast
    }
  }
  {
    fix q assume q: "q \<in> set (queue s)"
    with inv(2) show "retryCount q \<le> MAX_RETRIES" by (simp add: retryInv_def)
    from inv(2) q show "(status q = Error \<and> persisted (idb s) q) \<longleftrightarrow> retryCount q = MAX_RETRIES"
      by (auto simp: retryInv_def)
  }
  {
    fix es k assume h: "deliveryRun es s \<and> k < length (queue s)"
    then have d: "deliveryRun es s" and k: "k < length (queue s)" by simp_all
    note r = run_retryCount [OF assms d k]
    from r show c: "retryCount (queue (run es s) ! k)
            = retryCount (queue s ! k) + errorOutcomes (item_id (queue s ! k)) es s"
      by simp
    assume z: "retryCount (queue s ! k) = 0"
    from assms d have "reachable (run es s)" by (rule deliveryRun_reachable)
    then have "retryInv (run es s)" using reachable_retryInv by auto
    moreover from r have "queue (run es s) ! k \<in> set (queue (run es s))" by simp
    ultimately have "(status (queue (run es s) ! k) = Error \<and>
               persisted (idb (run es s)) (queue (run es s) ! k))
              \<longleftrightarrow> retryCount (queue (run es s) ! k) = MAX_RETRIES"
      by (auto simp: retryInv_def)
    with c z show "(status (queue (run es s) ! k) = Error \<and>
               persisted (idb (run es s)) (queue (run es s) ! k))
              \<longleftrightarrow> errorOutcomes (item_id (queue s ! k)) es s = MAX_RETRIES"
      by simp
  }
qed

lemma error_outcomes_exhaust_retries_example:
  "reachable inFlightExample
   \<and> mountedRef inFlightExample
   \<and> suspended inFlightExample ! 0 = AwaitUpload (exampleItem ''a'' Pending 0)
   \<and> deliveryRun (tl fiveErrors) inFlightExample
   \<and> retryCount (queue (fire 0 (UploadResolved 0 R_error) inFlightExample) ! 0) = 1
   \<and> status (queue (fire 0 (UploadResolved 0 R_error) inFlightExample) ! 0) = Pending
   \<and> idb (fire 0 (UploadResolved 0 R_error) inFlightExample) = []
   \<and> errorOutcomes ''a'' (tl fiveErrors) inFlightExample = 5
   \<and> retryCount (queue (run (tl fiveErrors) inFlightExample) ! 0) = 5
   \<and> status (queue (run (tl fiveErrors) inFlightExample) ! 0) = Error
   \<and> persisted (idb (run (tl fiveErrors) inFlightExample))
        (queue (run (tl fiveErrors) inFlightExample) ! 0)"
proof -
  have r: "reachable inFlightExample"
    unfolding inFlightExample_def enqueueExample_def run.simps
    by (rule reachable.enqueue [OF reachable.start]) (simp add: initEngine_def)
  have h: "mountedRef inFlightExample" "0 < length (suspended inFlightExample)"
    "suspended inFlightExample ! 0 = AwaitUpload (exampleItem ''a'' Pending 0)"
    by (simp_all add: inFlightExample_eval initEngine_def)
  have q: "queue inFlightExample = [exampleItem ''a'' Uploading 0]" "idb inFlightExample = []"
    by (simp_all add: inFlightExample_eval initEngine_def)
  have d: "deliveryRun (tl fiveErrors) inFlightExample"
    by (simp add: fiveErrors_def inFlightExample_eval engine_simps)
  have n: "errorOutcomes ''a'' (tl fiveErrors) inFlightExample = 5"
    by (simp add: fiveErrors_def inFlightExample_eval errorOutcomeFor_def engine_simps)
  note t = error_outcomes_exhaust_retries [OF r]
  from t have step: "mountedRef inFlightExample \<and> 0 < length (suspended inFlightExample) \<and>
      suspended inFlightExample ! 0 = AwaitUpload (exampleItem ''a'' Pending 0) \<longrightarrow>
      length (queue (fire 0 (UploadResolved 0 R_error) inFlightExample)) = length (queue inFlightExample) \<and>
      (\<forall>k < length (queue inFlightExample).
         (item_id (queue inFlightExample ! k) = item_id (exampleItem ''a'' Pending 0) \<longrightarrow>
            retryCount (queue (fire 0 (UploadResolved 0 R_error) inFlightExample) ! k)
              = retryCount (queue inFlightExample ! k) + 1 \<and>
            status (queue (fire 0 (UploadResolved 0 R_error) inFlightExample) ! k)
              = (if retryCount (queue inFlightExample ! k) + 1 = MAX_RETRIES then Error else Pending)) \<and>
         (item_id (queue inFlightExample ! k) \<noteq> item_id (exampleItem ''a'' Pending 0) \<longrightarrow>
            queue (fire 0 (UploadResolved 0 R_error) inFlightExample) ! k = queue inFlightExample ! k)) \<and>
      idb (fire 0 (UploadResolved 0 R_error) inFlightExample)
        = (if retryCount (exampleItem ''a'' Pending 0) + 1 = MAX_RETRIES
           then saveToOfflineQueue ((exampleItem ''a'' Pending 0)\<lparr>status := Error, retryCount := MAX_RETRIES\<rparr>)
                  (idb inFlightExample)
           else idb inFlightExample)"
    by blast
  with h have a: "retryCount (queue (fire 0 (UploadResolved 0 R_error) inFlightExample) ! 0) = 1"
    "status (queue (fire 0 (UploadResolved 0 R_error) inFlightExample) ! 0) = Pending"
    "idb (fire 0 (UploadResolved 0 R_error) inFlightExample) = []"
    by (simp_all add: q exampleItem_def MAX_RETRIES_def)
  from t have "deliveryRun (tl fiveErrors) inFlightExample \<and> 0 < length (queue inFlightExample) \<longrightarrow>
      retryCount (queue (run (tl fiveErrors) inFlightExample) ! 0)
        = retryCount (queue inFlightExample ! 0)
          + errorOutcomes (item_id (queue inFlightExample ! 0)) (tl fiveErrors) inFlightExample \<and>
      (retryCount (queue inFlightExample ! 0) = 0 \<longrightarrow>
         ((status (queue (run (tl fiveErrors) inFlightExample) ! 0) = Error \<and>
           persisted (idb (run (tl fiveErrors) inFlightExample))
             (queue (run (tl fiveErrors) inFlightExample) ! 0))
          \<longleftrightarrow> errorOutcomes (item_id (queue inFlightExample ! 0)) (tl fiveErrors) inFlightExample
                = MAX_RETRIES))"
    by blast
  with d n have b: "retryCount (queue (run (tl fiveErrors) inFlightExample) ! 0) = 5"
    "status (queue (run (tl fiveErrors) inFlightExample) ! 0) = Error"
    "persisted (idb (run (tl fiveErrors) inFlightExample))
        (queue (run (tl fiveErrors) inFlightExample) ! 0)"
    by (simp_all add: q exampleItem_def MAX_RETRIES_def)
  from r h d n a b show ?thesis by simp
qed

section \<open>The choice of the next item\<close>

lemma fire_syncs_queueRef:
  "mountedRef (handler rnd e s) \<Longrightarrow> queueRef (fire rnd e s) = queue (fire rnd e s)"
  by (simp add: fire_def effects_def Let_def)



























section \<open>Recoverable errors\<close>

lemma error_outcome_step:
  assumes "mountedRef s" "i < length (suspended s)" "suspended s ! i = AwaitUpload nextItem"
  shows "length (queue (uploadResolved i R_error rnd s)) = length (queue s)"
    and "\<forall>k < length (queue s).
          (item_id (queue s ! k) = item_id nextItem \<longrightarrow>
             retryCount (queue (uploadResolved i R_error rnd s) ! k) = retryCount nextItem + 1 \<and>
             status (queue (uploadResolved i R_error rnd s) ! k)
               = (if retryCount nextItem + 1 \<ge> 5 then Error else Pending)) \<and>
          (item_id (queue s ! k) \<noteq> item_id nextItem \<longrightarrow>
             queue (uploadResolved i R_error rnd s) ! k = queue s ! k)"
    and "idb (uploadResolved i R_error rnd s)
          = (if retryCount nextItem + 1 \<ge> 5
             then saveToOfflineQueue (nextItem\<lparr>status := Error, retryCount := retryCount nextItem + 1\<rparr>)
                    (idb s)
             else idb s)"
  using assms
  by (simp_all add: uploadResolved_def takeSuspended_def onError_def setTimeout_def Let_def
      mapItem_nth MAX_RETRIES_def)

lemma final_failure_saves_snapshot:
  assumes "mountedRef s" "i < length (suspended s)" "suspended s ! i = AwaitUpload nextItem"
    and "retryCount nextItem + 1 \<ge> MAX_RETRIES"
  shows "idb_get (STORE_PREFIX @ item_id nextItem) (idb (uploadResolved i R_error rnd s))
           = Some (nextItem\<lparr>status := Error, retryCount := retryCount nextItem + 1\<rparr>)"
    and "\<forall>q \<in> set (queue (uploadResolved i R_error rnd s)).
           item_id q = item_id nextItem \<longrightarrow> errorMessage q = Some ''Max retries exceeded''"
proof -
  from assms show "idb_get (STORE_PREFIX @ item_id nextItem) (idb (uploadResolved i R_error rnd s))
           = Some (nextItem\<lparr>status := Error, retryCount := retryCount nextItem + 1\<rparr>)"
    by (simp add: uploadResolved_def takeSuspended_def onError_def setTimeout_def Let_def
        saveToOfflineQueue_def idb_get_idb_set)
  from assms show "\<forall>q \<in> set (queue (uploadResolved i R_error rnd s)).
           item_id q = item_id nextItem \<longrightarrow> errorMessage q = Some ''Max retries exceeded''"
    by (auto simp: uploadResolved_def takeSuspended_def onError_def setTimeout_def Let_def
        dest!: mapItem_set split: if_splits)
qed

lemma retryFailed_restarts_count:
  "errorOutcomes ''a'' (fiveErrors @ [(0, RetryFailed)]) (initEngine []) = 5
   \<and> map (\<lambda>q. (status q, retryCount q))
         (queue (run (fiveErrors @ [(0, RetryFailed)]) (initEngine [])))
       = [(Pending, 0)]
   \<and> map fst (idb (run (fiveErrors @ [(0, RetryFailed)]) (initEngine [])))
       = [''upload_queue_a'']"
  by (simp add: fiveErrors_def errorOutcomeFor_def engine_simps)

text \<open>
  Claim C3 fails at the run of \<open>fiveErrors\<close>: after the fifth \<^verbatim>\<open>'error'\<close> the item of the
  queue is \<^verbatim>\<open>error\<close> with five retries and the message of the final failure,
  \<^verbatim>\<open>'Max retries exceeded'\<close>, and the store holds a capture under its key that is \<^verbatim>\<open>error\<close>
  with five retries; but the message of the stored capture is the one of the fourth
  failure, which the snapshot \<^verbatim>\<open>nextItem\<close> carried: the item is not written with its
  failure reason.
\<close>

theorem stored_reason_is_stale:
  "map (\<lambda>q. (status q, retryCount q, errorMessage q)) (queue afterFiveErrors)
     = [(Error, 5, Some ''Max retries exceeded'')]
   \<and> map (\<lambda>e. (fst e, status (snd e), retryCount (snd e), errorMessage (snd e)))
        (idb afterFiveErrors)
     = [(''upload_queue_a'', Error, 5, Some ''Upload failed, retry 4/5'')]"
  by (simp add: afterFiveErrors_def fiveErrors_def engine_simps)

section \<open>clearQueue and unmount while an item is in flight\<close>

lemma unmounted_resumption_is_inert:
  assumes "\<not> mountedRef s" "resumption e"
  shows "fire rnd e s
           = s\<lparr>timers := timers (fire rnd e s), suspended := suspended (fire rnd e s)\<rparr>"
    and "set (timers (fire rnd e s)) \<subseteq> set (timers s)"
    and "set (suspended (fire rnd e s)) \<subseteq> set (suspended s)"
proof -
  have sub: "set (take i xs @ drop (Suc i) xs) \<subseteq> set xs" for i and xs :: "suspension list"
    using set_take_subset [of i xs] set_drop_subset [of "Suc i" xs] by auto
  show "fire rnd e s
           = s\<lparr>timers := timers (fire rnd e s), suspended := suspended (fire rnd e s)\<rparr>"
    using assms
    by (cases e)
       (simp_all add: fire_def effects_def backoffElapsed_def uploadResolved_def timerFires_def
          takeSuspended_def Let_def split: suspension.splits option.splits timerCallback.splits)
  show "set (timers (fire rnd e s)) \<subseteq> set (timers s)"
    using assms
    by (cases e)
       (auto simp: fire_def effects_def backoffElapsed_def uploadResolved_def timerFires_def
          takeSuspended_def Let_def split: suspension.splits option.splits timerCallback.splits)
  show "set (suspended (fire rnd e s)) \<subseteq> set (suspended s)"
    using assms sub [of _ "suspended s"]
    by (cases e)
       (simp_all add: fire_def effects_def backoffElapsed_def uploadResolved_def timerFires_def
          takeSuspended_def Let_def split: suspension.splits option.splits timerCallback.splits)
qed

lemma unmount_cancels_ref_timers:
  "\<not> mountedRef (unmount s)"
  "\<forall>t \<in> set (timers (unmount s)).
     Some (fst t) \<noteq> nextTimerRef s \<and> Some (fst t) \<noteq> rateLimitTimerRef s"
  by (auto simp: unmount_def clearTimeoutRef_def split: option.splits)

lemma clearQueue_defeats_guard:
  "map (\<lambda>q. (item_id q, status q)) (queue (run clearThenEnqueue (initEngine [])))
     = [(''b'', Uploading), (''c'', Uploading)]"
  by (simp add: clearThenEnqueue_def engine_simps)

text \<open>
  Claim C5, at \<^verbatim>\<open>clearQueue\<close> while the item \<open>a\<close> is in flight: the queue is empty and
  \<^verbatim>\<open>processingRef\<close> is false, yet the suspended call is still there; when its upload is
  answered by a rate limit it sets the rate-limited flag, counts the rate limit and
  schedules the timer of the pause.
\<close>

theorem clearQueue_then_resolve_mutates:
  "map status (queue inFlightExample) = [Uploading]
   \<and> (queue clearedInFlight, processingRef clearedInFlight, mountedRef clearedInFlight,
        suspended clearedInFlight)
       = ([], False, True, [AwaitUpload (exampleItem ''a'' Pending 0)])
   \<and> (isRateLimited clearedInFlight, consecutiveRateLimitsRef clearedInFlight,
        timers clearedInFlight, rateLimitTimerRef clearedInFlight)
       = (False, 0, [], None)
   \<and> (isRateLimited (fire 0 (UploadResolved 0 R_rate_limit) clearedInFlight),
        consecutiveRateLimitsRef (fire 0 (UploadResolved 0 R_rate_limit) clearedInFlight),
        timers (fire 0 (UploadResolved 0 R_rate_limit) clearedInFlight),
        rateLimitTimerRef (fire 0 (UploadResolved 0 R_rate_limit) clearedInFlight))
       = (True, 1, [(1, RateLimitTick, 30000)], Some 1)"
  by (simp add: inFlightExample_def clearedInFlight_def engine_simps)

section \<open>Two runs of the specification\<close>

lemma three_successes:
  "uploadProgress (queue (run threeSuccesses (initEngine [])))
     = \<lparr>success = 3, failed = 0, pending = 0\<rparr>
   \<and> idb (run threeSuccesses (initEngine [])) = []
   \<and> \<not> processingRef (run threeSuccesses (initEngine []))
   \<and> attempts threeSuccesses (initEngine []) = [''a'', ''b'', ''c'']"
  by (simp add: threeSuccesses_def uploadProgress_def nextItemOf_def engine_simps)

lemma rate_limited_twice_then_success:
  "map (\<lambda>q. (status q, retryCount q)) (queue (run rateLimitedTwice (initEngine [])))
     = [(Success, 0)]
   \<and> consecutiveRateLimitsRef (run (butlast rateLimitedTwice) (initEngine [])) = 2
   \<and> consecutiveRateLimitsRef (run rateLimitedTwice (initEngine [])) = 0"
  by (simp add: rateLimitedTwice_def engine_simps)

end
